theory Spec2Isabelle
  imports Main
begin

section \<open>The storage collaborator\<close>

text \<open>
  \<^verbatim>\<open>ContentSlotRepository.js\<close> talks to a relational store through a connection pool
  (\<^verbatim>\<open>connectionPool.getConnection()\<close>, \<^verbatim>\<open>conn.query(sql, params)\<close>, \<^verbatim>\<open>conn.release()\<close>).
  The store is not part of the repository's sources. It is modelled here as two tables,
  an auto-increment counter, a script of upcoming failures, the list of issued statements
  and the list of connections that are currently checked out.
\<close>

record slot_row =
  id_col :: int
  view_id :: int
  component_type :: string
  column_start :: int
  row_start :: int
  column_end :: int
  row_end :: int

record option_row =
  contentslot_id :: int
  name :: string
  val :: string

text \<open>The statements the repository issues, one constructor per SQL template of the source,
  with the positional parameters in the order the source binds them.\<close>

datatype slot_query =
    ByViewId int
  | ByComponentType string

datatype option_query =
    ForContentSlot int
  | ForContentSlots "int list"

datatype dml =
    InsertSlot int string int int int int
  | DeleteSlot int
  | UpdateSlot int string int int int int int
  | DeleteOption int string
  | UpdateOption string int string
  | InsertOption int string string

datatype statement =
    SelectSlots slot_query
  | SelectOptions option_query
  | Modify dml

text \<open>What a JavaScript caller can see thrown: the driver's own exception (with its
  \<^verbatim>\<open>errno\<close> and \<^verbatim>\<open>code\<close>), a \<^verbatim>\<open>TypeError\<close> of the language, and the two errors
  the repository constructs itself. The argument of the latter two is \<^verbatim>\<open>e.code\<close>,
  which is \<^verbatim>\<open>undefined\<close> (\<open>None\<close>) when the caught value has no such property.\<close>

datatype exn =
    SqlError int string
  | TypeError
  | DuplicateEntryError "string option"
  | Error "string option"

fun errno :: "exn \<Rightarrow> int option" where
  "errno (SqlError n c) = Some n"
| "errno _ = None"

fun code :: "exn \<Rightarrow> string option" where
  "code (SqlError n c) = Some c"
| "code _ = None"

record ok_packet =
  affectedRows :: nat
  insertId :: int

record storage =
  contentslots :: "slot_row list"
  contentslot_options :: "option_row list"
  auto_increment :: int
  faults :: "(int \<times> string) option list"
  issued :: "(nat \<times> statement) list"
  leased :: "nat list"
  next_conn :: nat

type_synonym 'a outcome = "(exn + 'a) \<times> storage"

text \<open>Modelled from the spec: the failures of the storage engine (connectivity, pool
  exhaustion, constraint violations of a schema that is not in the sources). Every call
  that reaches the store takes the head of \<open>faults\<close>: \<open>Some (errno, code)\<close> makes the call
  throw the driver's exception and leaves the tables untouched, \<open>None\<close> (or an exhausted
  script) lets it run.\<close>

definition next_fault :: "storage \<Rightarrow> exn option \<times> storage" where
  "next_fault s =
     (case faults s of
        [] \<Rightarrow> (None, s)
      | None # fs \<Rightarrow> (None, s\<lparr>faults := fs\<rparr>)
      | Some (n, c) # fs \<Rightarrow> (Some (SqlError n c), s\<lparr>faults := fs\<rparr>))"

text \<open>Modelled from the spec: \<^verbatim>\<open>acquire() \<rightarrow> Connection\<close> (fails if exhausted or
  unreachable) and \<^verbatim>\<open>Connection.release()\<close>. A connection is a number; the pool hands
  out a fresh one and remembers it as leased until it is released.\<close>

definition getConnection :: "storage \<Rightarrow> nat outcome" where
  "getConnection s =
     (case next_fault s of
        (Some e, s') \<Rightarrow> (Inl e, s')
      | (None, s') \<Rightarrow>
          (Inr (next_conn s'),
           s'\<lparr>leased := next_conn s' # leased s', next_conn := Suc (next_conn s')\<rparr>))"

definition release :: "nat \<Rightarrow> storage \<Rightarrow> storage" where
  "release conn s = s\<lparr>leased := remove1 conn (leased s)\<rparr>"

text \<open>A statement sent over a connection is recorded, then fails or runs.\<close>

definition send :: "nat \<Rightarrow> statement \<Rightarrow> storage \<Rightarrow> exn option \<times> storage" where
  "send conn st s = next_fault (s\<lparr>issued := issued s @ [(conn, st)]\<rparr>)"

text \<open>Modelled from the spec: the table shape of section 6 and the meaning of the SQL
  statements. In the option table \<open>contentslot_id\<close> is a foreign key to the slot table and
  \<open>(contentslot_id, name)\<close> is unique: an insert for an id that no slot row has is refused
  with errno 1452, an insert of an existing pair with the duplicate-key condition, errno
  1062. The option rows of a slot go with it when the slot row is deleted (the cascade of
  section 3). An update reports as affected the rows whose stored value really changed; a
  delete reports the rows it removed, not the cascaded ones. Names and values are compared
  as exact strings.\<close>

definition matches :: "int \<Rightarrow> string \<Rightarrow> option_row \<Rightarrow> bool" where
  "matches id' key r = (contentslot_id r = id' \<and> name r = key)"

definition slot_of :: "int \<Rightarrow> int \<Rightarrow> string \<Rightarrow> int \<Rightarrow> int \<Rightarrow> int \<Rightarrow> int \<Rightarrow> slot_row" where
  "slot_of id' viewId componentType columnStart rowStart columnEnd rowEnd =
     \<lparr>id_col = id', view_id = viewId, component_type = componentType,
      column_start = columnStart, row_start = rowStart,
      column_end = columnEnd, row_end = rowEnd\<rparr>"

fun delete_first :: "int \<Rightarrow> slot_row list \<Rightarrow> slot_row list" where
  "delete_first id' [] = []"
| "delete_first id' (r # rs) = (if id_col r = id' then rs else r # delete_first id' rs)"

fun execute :: "dml \<Rightarrow> storage \<Rightarrow> exn + ok_packet \<times> storage" where
  "execute (InsertSlot viewId componentType columnStart rowStart columnEnd rowEnd) s =
     Inr (\<lparr>affectedRows = 1, insertId = auto_increment s\<rparr>,
          s\<lparr>contentslots := contentslots s @
               [slot_of (auto_increment s) viewId componentType columnStart rowStart columnEnd rowEnd],
            auto_increment := auto_increment s + 1\<rparr>)"
| "execute (DeleteSlot id') s =
     Inr (\<lparr>affectedRows = (if id' \<in> id_col ` set (contentslots s) then 1 else 0), insertId = 0\<rparr>,
          s\<lparr>contentslots := delete_first id' (contentslots s),
            contentslot_options :=
              (if id' \<in> id_col ` set (contentslots s)
               then filter (\<lambda>r. contentslot_id r \<noteq> id') (contentslot_options s)
               else contentslot_options s)\<rparr>)"
| "execute (UpdateSlot viewId componentType columnStart rowStart columnEnd rowEnd id') s =
     (let new = slot_of id' viewId componentType columnStart rowStart columnEnd rowEnd in
      Inr (\<lparr>affectedRows = length (filter (\<lambda>r. id_col r = id' \<and> r \<noteq> new) (contentslots s)),
             insertId = 0\<rparr>,
           s\<lparr>contentslots := map (\<lambda>r. if id_col r = id' then new else r) (contentslots s)\<rparr>))"
| "execute (DeleteOption id' key) s =
     Inr (\<lparr>affectedRows = length (filter (matches id' key) (contentslot_options s)), insertId = 0\<rparr>,
          s\<lparr>contentslot_options := filter (\<lambda>r. \<not> matches id' key r) (contentslot_options s)\<rparr>)"
| "execute (UpdateOption v id' key) s =
     Inr (\<lparr>affectedRows =
              length (filter (\<lambda>r. matches id' key r \<and> val r \<noteq> v) (contentslot_options s)),
            insertId = 0\<rparr>,
          s\<lparr>contentslot_options :=
               map (\<lambda>r. if matches id' key r then r\<lparr>val := v\<rparr> else r) (contentslot_options s)\<rparr>)"
| "execute (InsertOption id' key v) s =
     (if id' \<notin> id_col ` set (contentslots s)
      then Inl (SqlError 1452 ''ER_NO_REFERENCED_ROW_2'')
      else if list_ex (matches id' key) (contentslot_options s)
      then Inl (SqlError 1062 ''ER_DUP_ENTRY'')
      else Inr (\<lparr>affectedRows = 1, insertId = 0\<rparr>,
                s\<lparr>contentslot_options := contentslot_options s @
                     [\<lparr>contentslot_id = id', name = key, val = v\<rparr>]\<rparr>))"

fun select_slots :: "slot_query \<Rightarrow> storage \<Rightarrow> slot_row list" where
  "select_slots (ByViewId viewId) s = filter (\<lambda>r. view_id r = viewId) (contentslots s)"
| "select_slots (ByComponentType componentType) s =
     filter (\<lambda>r. component_type r = componentType) (contentslots s)"

fun select_options :: "option_query \<Rightarrow> storage \<Rightarrow> option_row list" where
  "select_options (ForContentSlot id') s =
     filter (\<lambda>r. contentslot_id r = id') (contentslot_options s)"
| "select_options (ForContentSlots ids) s =
     filter (\<lambda>r. contentslot_id r \<in> set ids) (contentslot_options s)"

text \<open>\<^verbatim>\<open>conn.query(sql, params)\<close>, by the shape of its result: an OK packet for a
  data-changing statement, the selected rows for a query.\<close>

definition query :: "nat \<Rightarrow> dml \<Rightarrow> storage \<Rightarrow> ok_packet outcome" where
  "query conn st s =
     (case send conn (Modify st) s of
        (Some e, s') \<Rightarrow> (Inl e, s')
      | (None, s') \<Rightarrow>
          (case execute st s' of
             Inl e \<Rightarrow> (Inl e, s')
           | Inr (result, s'') \<Rightarrow> (Inr result, s'')))"

definition query_slots :: "nat \<Rightarrow> slot_query \<Rightarrow> storage \<Rightarrow> slot_row list outcome" where
  "query_slots conn q s =
     (case send conn (SelectSlots q) s of
        (Some e, s') \<Rightarrow> (Inl e, s')
      | (None, s') \<Rightarrow> (Inr (select_slots q s'), s'))"

definition query_options :: "nat \<Rightarrow> option_query \<Rightarrow> storage \<Rightarrow> option_row list outcome" where
  "query_options conn q s =
     (case send conn (SelectOptions q) s of
        (Some e, s') \<Rightarrow> (Inl e, s')
      | (None, s') \<Rightarrow> (Inr (select_options q s'), s'))"

section \<open>JavaScript values\<close>

text \<open>A JavaScript \<^verbatim>\<open>Map\<close> is an association list with distinct keys in insertion
  order: \<^verbatim>\<open>set\<close> overwrites in place or appends, \<^verbatim>\<open>get\<close> is \<open>map_of\<close> with
  \<open>None\<close> for \<^verbatim>\<open>undefined\<close>, \<^verbatim>\<open>keys()\<close> is \<open>map fst\<close>.\<close>

fun Map_set :: "'k \<Rightarrow> 'v \<Rightarrow> ('k \<times> 'v) list \<Rightarrow> ('k \<times> 'v) list" where
  "Map_set k v [] = [(k, v)]"
| "Map_set k v (p # m) = (if fst p = k then (k, v) # m else p # Map_set k v m)"

definition Map_has :: "('k \<times> 'v) list \<Rightarrow> 'k \<Rightarrow> bool" where
  "Map_has m k = (map_of m k \<noteq> None)"

text \<open>The \<^verbatim>\<open>options\<close> argument is a plain object: the list of its own enumerable
  properties as \<^verbatim>\<open>Object.entries\<close> yields them. An object has every key once.\<close>

type_synonym js_object = "(string \<times> string) list"

definition hasOwnProperty :: "js_object \<Rightarrow> string \<Rightarrow> bool" where
  "hasOwnProperty obj key = (key \<in> set (map fst obj))"

section \<open>The option synchronizer\<close>

text \<open>\<^verbatim>\<open>getOptionsForContentSlot(conn, id)\<close>\<close>

definition getOptionsForContentSlot :: "nat \<Rightarrow> int \<Rightarrow> storage \<Rightarrow> (string \<times> string) list outcome" where
  "getOptionsForContentSlot conn id' s =
     (case query_options conn (ForContentSlot id') s of
        (Inl e, s') \<Rightarrow> (Inl e, s')
      | (Inr rows, s') \<Rightarrow> (Inr (foldl (\<lambda>options row. Map_set (name row) (val row) options) [] rows), s'))"

text \<open>The first loop of \<^verbatim>\<open>setOptionsForContentSlot\<close>: over \<^verbatim>\<open>existingOptions.keys()\<close>,
  deleting what the new object does not have.\<close>

fun remove_missing :: "nat \<Rightarrow> int \<Rightarrow> js_object \<Rightarrow> string list \<Rightarrow> bool \<Rightarrow> storage \<Rightarrow> bool outcome" where
  "remove_missing conn id' options [] optionsChanged s = (Inr optionsChanged, s)"
| "remove_missing conn id' options (key # keys) optionsChanged s =
     (if \<not> hasOwnProperty options key then
        (case query conn (DeleteOption id' key) s of
           (Inl e, s') \<Rightarrow> (Inl e, s')
         | (Inr result, s') \<Rightarrow> remove_missing conn id' options keys True s')
      else remove_missing conn id' options keys optionsChanged s)"

text \<open>The second loop: over \<^verbatim>\<open>Object.entries(options)\<close>, updating the keys that existed
  when the options were read and inserting the others.\<close>

fun write_entries ::
  "nat \<Rightarrow> int \<Rightarrow> (string \<times> string) list \<Rightarrow> js_object \<Rightarrow> bool \<Rightarrow> storage \<Rightarrow> bool outcome" where
  "write_entries conn id' existingOptions [] optionsChanged s = (Inr optionsChanged, s)"
| "write_entries conn id' existingOptions ((key, v) # entries) optionsChanged s =
     (if Map_has existingOptions key then
        (case query conn (UpdateOption v id' key) s of
           (Inl e, s') \<Rightarrow> (Inl e, s')
         | (Inr updateResult, s') \<Rightarrow>
             write_entries conn id' existingOptions entries
               (if affectedRows updateResult = 1 then True else optionsChanged) s')
      else
        (case query conn (InsertOption id' key v) s of
           (Inl e, s') \<Rightarrow> (Inl e, s')
         | (Inr result, s') \<Rightarrow> write_entries conn id' existingOptions entries True s'))"

text \<open>\<^verbatim>\<open>setOptionsForContentSlot(conn, id, options = {})\<close>: an \<^verbatim>\<open>undefined\<close> argument
  (\<open>None\<close>) takes the default, the empty object.\<close>

definition setOptionsForContentSlot :: "nat \<Rightarrow> int \<Rightarrow> js_object option \<Rightarrow> storage \<Rightarrow> bool outcome" where
  "setOptionsForContentSlot conn id' options s =
     (let options = (case options of None \<Rightarrow> [] | Some obj \<Rightarrow> obj) in
      case getOptionsForContentSlot conn id' s of
        (Inl e, s1) \<Rightarrow> (Inl e, s1)
      | (Inr existingOptions, s1) \<Rightarrow>
          (case remove_missing conn id' options (map fst existingOptions) False s1 of
             (Inl e, s2) \<Rightarrow> (Inl e, s2)
           | (Inr optionsChanged, s2) \<Rightarrow>
               write_entries conn id' existingOptions options optionsChanged s2))"

section \<open>Row mapping and the batch read\<close>

text \<open>The aggregate a caller receives. Its \<^verbatim>\<open>options\<close> property is a plain object,
  read here as a map from property names to values.\<close>

record content_slot =
  obj_id :: int
  obj_componentType :: string
  obj_viewId :: int
  obj_columnStart :: int
  obj_rowStart :: int
  obj_columnEnd :: int
  obj_rowEnd :: int
  obj_options :: "string \<rightharpoonup> string"

definition rowToObject :: "slot_row \<Rightarrow> content_slot" where
  "rowToObject row =
     \<lparr>obj_id = id_col row,
      obj_componentType = component_type row,
      obj_viewId = view_id row,
      obj_columnStart = column_start row,
      obj_rowStart = row_start row,
      obj_columnEnd = column_end row,
      obj_rowEnd = row_end row,
      obj_options = Map.empty\<rparr>"

text \<open>\<^verbatim>\<open>object.options[key] = value\<close> on an ordinary object: the key \<^verbatim>\<open>__proto__\<close>
  reaches the inherited setter, which ignores a string, so no property is created.\<close>

definition assign :: "string \<Rightarrow> string \<Rightarrow> (string \<rightharpoonup> string) \<Rightarrow> (string \<rightharpoonup> string)" where
  "assign key v obj = (if key = ''__proto__'' then obj else obj(key \<mapsto> v))"

text \<open>\<^verbatim>\<open>rowToObjectWithOptions(row, options)\<close>: \<^verbatim>\<open>options.forEach\<close> on \<^verbatim>\<open>undefined\<close>
  (\<open>None\<close>) is a \<^verbatim>\<open>TypeError\<close>.\<close>

definition rowToObjectWithOptions :: "slot_row \<Rightarrow> (string \<times> string) list option \<Rightarrow> exn + content_slot" where
  "rowToObjectWithOptions row options =
     (case options of
        None \<Rightarrow> Inl TypeError
      | Some m \<Rightarrow>
          Inr (foldl (\<lambda>object (key, v). object\<lparr>obj_options := assign key v (obj_options object)\<rparr>)
                 (rowToObject row) m))"

text \<open>The second loop of \<^verbatim>\<open>getOptionsForContentSlots\<close>:
  \<^verbatim>\<open>options.get(id).set(name, value)\<close> for every returned row.\<close>

fun fill :: "(int \<times> (string \<times> string) list) list \<Rightarrow> option_row list \<Rightarrow>
    exn + (int \<times> (string \<times> string) list) list" where
  "fill options [] = Inr options"
| "fill options (row # rows) =
     (case map_of options (contentslot_id row) of
        None \<Rightarrow> Inl TypeError
      | Some m \<Rightarrow>
          fill (Map_set (contentslot_id row) (Map_set (name row) (val row) m) options) rows)"

definition getOptionsForContentSlots ::
  "nat \<Rightarrow> int list \<Rightarrow> storage \<Rightarrow> (int \<times> (string \<times> string) list) list outcome" where
  "getOptionsForContentSlots conn ids s =
     (case query_options conn (ForContentSlots ids) s of
        (Inl e, s') \<Rightarrow> (Inl e, s')
      | (Inr rows, s') \<Rightarrow>
          (fill (foldl (\<lambda>options id'. Map_set id' [] options) [] ids) rows, s'))"

text \<open>\<^verbatim>\<open>rows.map(callback)\<close> with a callback that may throw.\<close>

fun map_rows :: "(slot_row \<Rightarrow> exn + content_slot) \<Rightarrow> slot_row list \<Rightarrow> exn + content_slot list" where
  "map_rows f [] = Inr []"
| "map_rows f (row # rows) =
     (case f row of
        Inl e \<Rightarrow> Inl e
      | Inr object \<Rightarrow>
          (case map_rows f rows of
             Inl e \<Rightarrow> Inl e
           | Inr objects \<Rightarrow> Inr (object # objects)))"

section \<open>The public operations\<close>

text \<open>Every operation has the shape
  \<^verbatim>\<open>let conn; try { conn = await getConnection(); ... } finally { if (conn) conn.release() }\<close>.
  The try block yields the local \<^verbatim>\<open>conn\<close> (\<open>None\<close> while unassigned) with its outcome;
  the finally block runs once, on whatever the try block (and the catch clause, where
  there is one) produced.\<close>

definition try_with_connection ::
  "(nat \<Rightarrow> storage \<Rightarrow> 'a outcome) \<Rightarrow> storage \<Rightarrow> nat option \<times> 'a outcome" where
  "try_with_connection body s =
     (case getConnection s of
        (Inl e, s1) \<Rightarrow> (None, Inl e, s1)
      | (Inr conn, s1) \<Rightarrow> (Some conn, body conn s1))"

definition finally_release :: "nat option \<times> 'a outcome \<Rightarrow> 'a outcome" where
  "finally_release t =
     (case t of
        (None, r, s) \<Rightarrow> (r, s)
      | (Some conn, r, s) \<Rightarrow> (r, release conn s))"

text \<open>The catch clause of \<^verbatim>\<open>createContentSlot\<close>.\<close>

definition catch_clause :: "nat option \<times> 'a outcome \<Rightarrow> nat option \<times> 'a outcome" where
  "catch_clause t =
     (case t of
        (conn, Inl e, s) \<Rightarrow>
          (conn, Inl (if errno e = Some 1062 then DuplicateEntryError (code e) else Error (code e)), s)
      | (conn, Inr r, s) \<Rightarrow> (conn, Inr r, s))"

definition createContentSlot_try ::
  "string \<Rightarrow> int \<Rightarrow> int \<Rightarrow> int \<Rightarrow> int \<Rightarrow> int \<Rightarrow> js_object option \<Rightarrow> storage \<Rightarrow>
     nat option \<times> int outcome" where
  "createContentSlot_try componentType viewId columnStart rowStart columnEnd rowEnd options s =
     try_with_connection (\<lambda>conn s1.
       case query conn (InsertSlot viewId componentType columnStart rowStart columnEnd rowEnd) s1 of
         (Inl e, s2) \<Rightarrow> (Inl e, s2)
       | (Inr insertResult, s2) \<Rightarrow>
           (let contentSlotId = insertId insertResult in
            case setOptionsForContentSlot conn contentSlotId options s2 of
              (Inl e, s3) \<Rightarrow> (Inl e, s3)
            | (Inr changed, s3) \<Rightarrow> (Inr contentSlotId, s3))) s"

definition createContentSlot ::
  "string \<Rightarrow> int \<Rightarrow> int \<Rightarrow> int \<Rightarrow> int \<Rightarrow> int \<Rightarrow> js_object option \<Rightarrow> storage \<Rightarrow> int outcome" where
  "createContentSlot componentType viewId columnStart rowStart columnEnd rowEnd options s =
     finally_release (catch_clause
       (createContentSlot_try componentType viewId columnStart rowStart columnEnd rowEnd options s))"

definition deleteOne :: "int \<Rightarrow> storage \<Rightarrow> int option outcome" where
  "deleteOne id' s =
     finally_release (try_with_connection (\<lambda>conn s1.
       case query conn (DeleteSlot id') s1 of
         (Inl e, s2) \<Rightarrow> (Inl e, s2)
       | (Inr result, s2) \<Rightarrow> (Inr (if affectedRows result = 1 then Some id' else None), s2)) s)"

definition getContentSlotsByViewId :: "int \<Rightarrow> storage \<Rightarrow> content_slot list outcome" where
  "getContentSlotsByViewId viewId s =
     finally_release (try_with_connection (\<lambda>conn s1.
       case query_slots conn (ByViewId viewId) s1 of
         (Inl e, s2) \<Rightarrow> (Inl e, s2)
       | (Inr rows, s2) \<Rightarrow>
           if length rows = 0 then (Inr [], s2)
           else
             (let contentSlotIds = map id_col rows in
              case getOptionsForContentSlots conn contentSlotIds s2 of
                (Inl e, s3) \<Rightarrow> (Inl e, s3)
              | (Inr options, s3) \<Rightarrow>
                  (map_rows (\<lambda>row. rowToObjectWithOptions row (map_of options (id_col row))) rows,
                   s3))) s)"

definition getContentSlotsByComponentType :: "string \<Rightarrow> storage \<Rightarrow> content_slot list outcome" where
  "getContentSlotsByComponentType componentType s =
     finally_release (try_with_connection (\<lambda>conn s1.
       case query_slots conn (ByComponentType componentType) s1 of
         (Inl e, s2) \<Rightarrow> (Inl e, s2)
       | (Inr rows, s2) \<Rightarrow> (Inr (map rowToObject rows), s2)) s)"

definition updateContentSlot ::
  "int \<Rightarrow> string \<Rightarrow> int \<Rightarrow> int \<Rightarrow> int \<Rightarrow> int \<Rightarrow> int \<Rightarrow> js_object option \<Rightarrow> storage \<Rightarrow>
     int option outcome" where
  "updateContentSlot id' componentType viewId columnStart rowStart columnEnd rowEnd options s =
     finally_release (try_with_connection (\<lambda>conn s1.
       case query conn (UpdateSlot viewId componentType columnStart rowStart columnEnd rowEnd id') s1 of
         (Inl e, s2) \<Rightarrow> (Inl e, s2)
       | (Inr result, s2) \<Rightarrow>
           (let contentSlotChanged = (affectedRows result = 1) in
            case setOptionsForContentSlot conn id' options s2 of
              (Inl e, s3) \<Rightarrow> (Inl e, s3)
            | (Inr optionsChanged, s3) \<Rightarrow>
                (Inr (if contentSlotChanged \<or> optionsChanged then Some id' else None), s3))) s)"

section \<open>Notions used in the statements\<close>

text \<open>The persisted options of a slot: the \<open>(name, value)\<close> pairs of its option rows,
  in table order.\<close>

definition stored :: "int \<Rightarrow> storage \<Rightarrow> (string \<times> string) list" where
  "stored id' s =
     map (\<lambda>r. (name r, val r)) (filter (\<lambda>r. contentslot_id r = id') (contentslot_options s))"

text \<open>What the second loop of the synchronizer makes of a stored pair.\<close>

definition written :: "(string \<times> string) list \<Rightarrow> js_object \<Rightarrow> string \<times> string \<Rightarrow> string \<times> string" where
  "written existingOptions entries p =
     (fst p, if Map_has existingOptions (fst p)
             then (case map_of entries (fst p) of Some v \<Rightarrow> v | None \<Rightarrow> snd p)
             else snd p)"

text \<open>An entry of the new object counts as a change when its key is new, or when the
  stored value under its key is another one.\<close>

definition differs :: "(string \<times> string) list \<Rightarrow> (string \<times> string) list \<Rightarrow> string \<times> string \<Rightarrow> bool" where
  "differs ex S p = (Map_has ex (fst p) \<longrightarrow> (\<exists>v0. (fst p, v0) \<in> set S \<and> v0 \<noteq> snd p))"

text \<open>The statements of one synchronization that runs to its end, in order: the read,
  a delete for every existing key the new object lacks, then for every entry of the new
  object an update (the key existed) or an insert (it did not).\<close>

definition sync_plan :: "nat \<Rightarrow> int \<Rightarrow> (string \<times> string) list \<Rightarrow> js_object \<Rightarrow> (nat \<times> statement) list" where
  "sync_plan conn id' existingOptions D =
     (conn, SelectOptions (ForContentSlot id')) #
     map (\<lambda>k. (conn, Modify (DeleteOption id' k)))
       (filter (\<lambda>k. \<not> hasOwnProperty D k) (map fst existingOptions)) @
     map (\<lambda>p. (conn, Modify (if Map_has existingOptions (fst p)
                              then UpdateOption (snd p) id' (fst p)
                              else InsertOption id' (fst p) (snd p)))) D"

text \<open>The errors the repository constructs itself, carrying a diagnostic code, and the
  driver's own exception.\<close>

fun typed_failure :: "exn \<Rightarrow> bool" where
  "typed_failure (DuplicateEntryError (Some c)) = True"
| "typed_failure (Error (Some c)) = True"
| "typed_failure _ = False"

fun driver_exception :: "exn \<Rightarrow> bool" where
  "driver_exception (SqlError n c) = True"
| "driver_exception _ = False"

text \<open>A small store for concrete runs: three slots in view 1; slot 1 has two options,
  slot 2 one, slot 3 none.\<close>

definition demo_store :: storage where
  "demo_store =
     \<lparr>contentslots =
        [slot_of 1 1 ''Banner'' 1 1 3 2, slot_of 2 1 ''Clock'' 3 1 5 2, slot_of 3 1 ''Text'' 1 2 5 3],
      contentslot_options =
        [\<lparr>contentslot_id = 1, name = ''color'', val = ''red''\<rparr>,
         \<lparr>contentslot_id = 1, name = ''old'', val = ''x''\<rparr>,
         \<lparr>contentslot_id = 2, name = ''color'', val = ''green''\<rparr>],
      auto_increment = 4, faults = [], issued = [], leased = [], next_conn = 0\<rparr>"

text \<open>The same store when the connection is handed out and the first statement sent
  over it fails.\<close>

definition failing_store :: storage where
  "failing_store = demo_store\<lparr>faults := [None, Some (1205, ''ER_LOCK_WAIT_TIMEOUT'')]\<rparr>"

text \<open>The same store when the connection is handed out and the first statement sent
  over it violates a unique key.\<close>

definition duplicate_store :: storage where
  "duplicate_store = demo_store\<lparr>faults := [None, Some (1062, ''ER_DUP_ENTRY'')]\<rparr>"

text \<open>The storage calls of an operation are read off the fault script: every call to
  the pool or over a connection consumes one entry. \<open>used s s'\<close> is the part of the script
  of \<open>s\<close> that was consumed on the way to \<open>s'\<close>, and \<open>first_fault\<close> the first failure
  scripted there, with its \<^verbatim>\<open>errno\<close> and \<^verbatim>\<open>code\<close>.\<close>

fun first_fault :: "(int \<times> string) option list \<Rightarrow> (int \<times> string) option" where
  "first_fault [] = None"
| "first_fault (None # fs) = first_fault fs"
| "first_fault (Some f # fs) = Some f"

definition used :: "storage \<Rightarrow> storage \<Rightarrow> (int \<times> string) option list" where
  "used s s' = take (length (faults s) - length (faults s')) (faults s)"

text \<open>The two exceptions the tables themselves raise on an insert into the option table:
  the foreign key and the unique key.\<close>

fun refusal :: "exn \<Rightarrow> bool" where
  "refusal (SqlError n c) =
     ((n = 1452 \<and> c = ''ER_NO_REFERENCED_ROW_2'') \<or> (n = 1062 \<and> c = ''ER_DUP_ENTRY''))"
| "refusal _ = False"

text \<open>An outcome passes the script on: some prefix of the script was consumed; a value
  means no failure was scripted there; a failure is the first one scripted there, as the
  driver raised it, or (when \<open>b\<close> allows it) a refusal by the tables with no failure
  scripted.\<close>

definition passes :: "bool \<Rightarrow> storage \<Rightarrow> (exn + 'a) \<times> storage \<Rightarrow> bool" where
  "passes b s out =
     (\<exists>j. faults (snd out) = drop j (faults s) \<and>
        (case fst out of
           Inr r \<Rightarrow> first_fault (take j (faults s)) = None
         | Inl e \<Rightarrow>
             (\<exists>n c. e = SqlError n c \<and> first_fault (take j (faults s)) = Some (n, c)) \<or>
             (b \<and> refusal e \<and> first_fault (take j (faults s)) = None)))"

section \<open>Facts about the store\<close>

lemma next_fault_fields:
  "next_fault s = (r, s') \<Longrightarrow>
     contentslots s' = contentslots s \<and> contentslot_options s' = contentslot_options s \<and>
     auto_increment s' = auto_increment s \<and> leased s' = leased s \<and>
     next_conn s' = next_conn s \<and> issued s' = issued s"
  by (auto simp: next_fault_def split: list.splits option.splits)

lemma send_fields:
  "send conn st s = (r, s') \<Longrightarrow>
     contentslots s' = contentslots s \<and> contentslot_options s' = contentslot_options s \<and>
     auto_increment s' = auto_increment s \<and> leased s' = leased s \<and>
     next_conn s' = next_conn s \<and> issued s' = issued s @ [(conn, st)]"
  unfolding send_def by (drule next_fault_fields) simp

lemma query_options_ok:
  "query_options conn q s = (Inr rows, s') \<Longrightarrow>
     rows = select_options q s \<and>
     contentslots s' = contentslots s \<and> contentslot_options s' = contentslot_options s \<and>
     auto_increment s' = auto_increment s \<and> leased s' = leased s \<and>
     next_conn s' = next_conn s \<and> issued s' = issued s @ [(conn, SelectOptions q)]"
  unfolding query_options_def
  by (cases q) (auto split: prod.splits option.splits dest!: send_fields)

lemma query_DeleteOption_ok:
  "query conn (DeleteOption i k) s = (Inr r, s') \<Longrightarrow>
     contentslot_options s' = filter (\<lambda>r. \<not> matches i k r) (contentslot_options s) \<and>
     contentslots s' = contentslots s \<and>
     issued s' = issued s @ [(conn, Modify (DeleteOption i k))]"
  unfolding query_def
  by (auto split: prod.splits option.splits dest!: send_fields)

lemma query_UpdateOption_ok:
  "query conn (UpdateOption v i k) s = (Inr r, s') \<Longrightarrow>
     contentslot_options s' =
       map (\<lambda>r. if matches i k r then r\<lparr>val := v\<rparr> else r) (contentslot_options s) \<and>
     affectedRows r = length (filter (\<lambda>r. matches i k r \<and> val r \<noteq> v) (contentslot_options s)) \<and>
     contentslots s' = contentslots s \<and>
     issued s' = issued s @ [(conn, Modify (UpdateOption v i k))]"
  unfolding query_def
  by (auto split: prod.splits option.splits dest!: send_fields)

lemma query_InsertOption_ok:
  "query conn (InsertOption i k v) s = (Inr r, s') \<Longrightarrow>
     contentslot_options s' = contentslot_options s @ [\<lparr>contentslot_id = i, name = k, val = v\<rparr>] \<and>
     \<not> list_ex (matches i k) (contentslot_options s) \<and>
     i \<in> id_col ` set (contentslots s) \<and>
     contentslots s' = contentslots s \<and>
     issued s' = issued s @ [(conn, Modify (InsertOption i k v))]"
  unfolding query_def
  by (auto split: prod.splits option.splits if_splits dest!: send_fields)

lemma stored_delete:
  "contentslot_options s' = filter (\<lambda>r. \<not> matches i k r) (contentslot_options s) \<Longrightarrow>
   stored j s' = (if j = i then filter (\<lambda>p. fst p \<noteq> k) (stored j s) else stored j s)"
  by (auto simp: stored_def matches_def filter_map comp_def intro!: arg_cong[where f="map _"] filter_cong)

lemma stored_update:
  "contentslot_options s' =
     map (\<lambda>r. if matches i k r then r\<lparr>val := v\<rparr> else r) (contentslot_options s) \<Longrightarrow>
   stored j s' = (if j = i then map (\<lambda>p. (fst p, if fst p = k then v else snd p)) (stored j s) else stored j s)"
  by (auto simp: stored_def matches_def filter_map comp_def intro!: map_cong arg_cong[where f="map _"] filter_cong)

lemma stored_insert:
  "contentslot_options s' = contentslot_options s @ [\<lparr>contentslot_id = i, name = k, val = v\<rparr>] \<Longrightarrow>
   stored j s' = (if j = i then stored j s @ [(k, v)] else stored j s)"
  by (auto simp: stored_def)

lemma not_stored_key:
  "\<not> list_ex (matches i k) (contentslot_options s) \<Longrightarrow> k \<notin> fst ` set (stored i s)"
  by (auto simp: stored_def matches_def list_ex_iff)

section \<open>The two loops of the synchronizer\<close>

lemma remove_missing_ok:
  "remove_missing conn i D keys b s = (Inr b', s') \<Longrightarrow>
     stored i s' = filter (\<lambda>p. \<not> (fst p \<in> set keys \<and> \<not> hasOwnProperty D (fst p))) (stored i s) \<and>
     (\<forall>j. j \<noteq> i \<longrightarrow> stored j s' = stored j s) \<and>
     contentslots s' = contentslots s \<and>
     b' = (b \<or> (\<exists>k \<in> set keys. \<not> hasOwnProperty D k)) \<and>
     issued s' = issued s @
       map (\<lambda>k. (conn, Modify (DeleteOption i k))) (filter (\<lambda>k. \<not> hasOwnProperty D k) keys)"
proof (induction keys arbitrary: b s)
  case Nil
  then show ?case by simp
next
  case (Cons key keys)
  show ?case
  proof (cases "hasOwnProperty D key")
    case True
    with Cons.prems have "remove_missing conn i D keys b s = (Inr b', s')" by simp
    from Cons.IH[OF this] True show ?thesis
      by (auto intro!: filter_cong)
  next
    case False
    with Cons.prems obtain r s1 where
      q: "query conn (DeleteOption i key) s = (Inr r, s1)" and
      rest: "remove_missing conn i D keys True s1 = (Inr b', s')"
      by (auto split: prod.splits sum.splits)
    note d = query_DeleteOption_ok[OF q]
    from d have st: "\<And>j. stored j s1 = (if j = i then filter (\<lambda>p. fst p \<noteq> key) (stored j s) else stored j s)"
      by (simp add: stored_delete)
    from Cons.IH[OF rest] d st False show ?thesis
      by (auto intro!: filter_cong)
  qed
qed

lemma write_entries_ok:
  "write_entries conn i ex entries b s = (Inr b', s') \<Longrightarrow> distinct (map fst entries) \<Longrightarrow>
     stored i s' = map (written ex entries) (stored i s) @ filter (\<lambda>p. \<not> Map_has ex (fst p)) entries \<and>
     (\<forall>j. j \<noteq> i \<longrightarrow> stored j s' = stored j s) \<and>
     contentslots s' = contentslots s \<and>
     issued s' = issued s @
       map (\<lambda>p. (conn, Modify (if Map_has ex (fst p) then UpdateOption (snd p) i (fst p)
                                else InsertOption i (fst p) (snd p)))) entries"
proof (induction entries arbitrary: b s)
  case Nil
  have "\<And>p. written ex [] p = p" by (simp add: written_def)
  with Nil show ?case by simp
next
  case (Cons e entries)
  obtain key v where e: "e = (key, v)" by (cases e)
  from Cons.prems(2) e have dist: "distinct (map fst entries)" and fresh: "key \<notin> fst ` set entries"
    by auto
  from fresh have nokey: "map_of entries key = None"
    by (simp add: map_of_eq_None_iff)
  show ?case
  proof (cases "Map_has ex key")
    case True
    with Cons.prems(1) e obtain r s1 where
      q: "query conn (UpdateOption v i key) s = (Inr r, s1)" and
      rest: "write_entries conn i ex entries (if affectedRows r = 1 then True else b) s1 = (Inr b', s')"
      by (auto split: prod.splits sum.splits)
    note u = query_UpdateOption_ok[OF q]
    from u have st: "\<And>j. stored j s1 =
        (if j = i then map (\<lambda>p. (fst p, if fst p = key then v else snd p)) (stored j s) else stored j s)"
      by (simp add: stored_update)
    have comp: "\<And>p. written ex entries (fst p, if fst p = key then v else snd p) = written ex (e # entries) p"
      using True nokey e by (auto simp: written_def split: option.splits)
    from Cons.IH[OF rest dist] u st True e comp show ?thesis
      by (simp add: comp_def)
  next
    case False
    with Cons.prems(1) e obtain r s1 where
      q: "query conn (InsertOption i key v) s = (Inr r, s1)" and
      rest: "write_entries conn i ex entries True s1 = (Inr b', s')"
      by (auto split: prod.splits sum.splits)
    note u = query_InsertOption_ok[OF q]
    from u have st: "\<And>j. stored j s1 = (if j = i then stored j s @ [(key, v)] else stored j s)"
      by (simp add: stored_insert)
    have comp: "\<And>p. written ex entries p = written ex (e # entries) p"
      using False e by (auto simp: written_def split: option.splits)
    have self: "written ex entries (key, v) = (key, v)"
      using False by (simp add: written_def)
    from Cons.IH[OF rest dist] u st False e comp self show ?thesis
      by simp
  qed
qed

lemma Map_set_keys: "fst ` set (Map_set k v m) = insert k (fst ` set m)"
  by (induction m) auto

lemma Map_set_fresh: "k \<notin> fst ` set m \<Longrightarrow> Map_set k v m = m @ [(k, v)]"
  by (induction m) auto

lemma foldl_Map_set_keys:
  "fst ` set (foldl (\<lambda>options row. Map_set (name row) (val row) options) acc rows) =
     fst ` set acc \<union> name ` set rows"
  by (induction rows arbitrary: acc) (auto simp: Map_set_keys)

lemma foldl_Map_set_distinct:
  "distinct (map fst acc @ map name rows) \<Longrightarrow>
   foldl (\<lambda>options row. Map_set (name row) (val row) options) acc rows =
     acc @ map (\<lambda>r. (name r, val r)) rows"
proof (induction rows arbitrary: acc)
  case Nil
  then show ?case by simp
next
  case (Cons r rows)
  from Cons.prems have "name r \<notin> fst ` set acc" by auto
  then have step: "Map_set (name r) (val r) acc = acc @ [(name r, val r)]"
    by (rule Map_set_fresh)
  from Cons.prems have "distinct (map fst (acc @ [(name r, val r)]) @ map name rows)"
    by auto
  from Cons.IH[OF this] step show ?case by simp
qed

lemma Map_has_keys: "Map_has m k \<longleftrightarrow> k \<in> fst ` set m"
  by (simp add: Map_has_def map_of_eq_None_iff)

lemma getOptionsForContentSlot_ok:
  assumes "getOptionsForContentSlot conn i s = (Inr existingOptions, s')"
  shows "fst ` set existingOptions = fst ` set (stored i s)"
    and "distinct (map fst (stored i s)) \<Longrightarrow> existingOptions = stored i s"
    and "contentslot_options s' = contentslot_options s"
    and "contentslots s' = contentslots s"
    and "issued s' = issued s @ [(conn, SelectOptions (ForContentSlot i))]"
proof -
  from assms obtain rows where
    q: "query_options conn (ForContentSlot i) s = (Inr rows, s')" and
    ex: "existingOptions = foldl (\<lambda>options row. Map_set (name row) (val row) options) [] rows"
    by (auto simp: getOptionsForContentSlot_def split: prod.splits sum.splits)
  note f = query_options_ok[OF q]
  from f have rows: "rows = filter (\<lambda>r. contentslot_id r = i) (contentslot_options s)" by simp
  show "fst ` set existingOptions = fst ` set (stored i s)"
    unfolding ex foldl_Map_set_keys by (simp add: rows stored_def image_image)
  show "existingOptions = stored i s" if "distinct (map fst (stored i s))"
  proof -
    from that have "distinct (map fst [] @ map name rows)"
      by (simp add: rows stored_def comp_def)
    from foldl_Map_set_distinct[OF this] show ?thesis
      by (simp add: ex rows stored_def)
  qed
  from f show "contentslot_options s' = contentslot_options s" by simp
  from f show "contentslots s' = contentslots s" by simp
  from f show "issued s' = issued s @ [(conn, SelectOptions (ForContentSlot i))]" by simp
qed

lemma stored_cong: "contentslot_options s' = contentslot_options s \<Longrightarrow> stored i s' = stored i s"
  by (simp add: stored_def)

lemma reconciled:
  assumes d: "distinct (map fst D)" and ex: "\<And>k. Map_has ex k \<longleftrightarrow> k \<in> fst ` set S"
  shows "set (map (written ex D) (filter (\<lambda>p. hasOwnProperty D (fst p)) S) @
              filter (\<lambda>p. \<not> Map_has ex (fst p)) D) = set D"
proof -
  have w: "written ex D (k, v0) = (k, v)" if "(k, v0) \<in> set S" "(k, v) \<in> set D" for k v0 v
  proof -
    from that(1) have "Map_has ex k" by (force simp: ex)
    moreover from d that(2) have "map_of D k = Some v" by simp
    ultimately show ?thesis by (simp add: written_def)
  qed
  show ?thesis
  proof (intro set_eqI iffI)
    fix p assume p: "p \<in> set (map (written ex D) (filter (\<lambda>p. hasOwnProperty D (fst p)) S) @
              filter (\<lambda>p. \<not> Map_has ex (fst p)) D)"
    then consider q where "q \<in> set S" "hasOwnProperty D (fst q)" "p = written ex D q"
      | "p \<in> set D" by auto
    then show "p \<in> set D"
    proof cases
      case 1
      from 1(2) obtain v where v: "(fst q, v) \<in> set D"
        by (auto simp: hasOwnProperty_def)
      from w[of "fst q" "snd q" v] 1(1) v have "written ex D q = (fst q, v)" by simp
      with 1(3) v show ?thesis by simp
    qed
  next
    fix p assume p: "p \<in> set D"
    show "p \<in> set (map (written ex D) (filter (\<lambda>p. hasOwnProperty D (fst p)) S) @
              filter (\<lambda>p. \<not> Map_has ex (fst p)) D)"
    proof (cases "Map_has ex (fst p)")
      case False
      with p show ?thesis by simp
    next
      case True
      then obtain v0 where v0: "(fst p, v0) \<in> set S" by (auto simp: ex)
      from p have h: "hasOwnProperty D (fst p)" by (force simp: hasOwnProperty_def)
      from w[of "fst p" v0 "snd p"] v0 p have "written ex D (fst p, v0) = p" by simp
      with v0 h have "p \<in> written ex D ` {q \<in> set S. hasOwnProperty D (fst q)}"
        by (metis (mono_tags, lifting) fst_conv image_eqI mem_Collect_eq)
      then show ?thesis by simp
    qed
  qed
qed

lemma setOptions_parts:
  assumes "setOptionsForContentSlot conn i (Some D) s = (Inr changed, s')"
  obtains ex s1 b1 s2 where
    "getOptionsForContentSlot conn i s = (Inr ex, s1)"
    "remove_missing conn i D (map fst ex) False s1 = (Inr b1, s2)"
    "write_entries conn i ex D b1 s2 = (Inr changed, s')"
  using assms
  by (auto simp: setOptionsForContentSlot_def split: prod.splits sum.splits)

lemma sync_stored:
  assumes d: "distinct (map fst D)"
    and run: "setOptionsForContentSlot conn id' (Some D) s = (Inr changed, s')"
  shows "set (stored id' s') = set D \<and> map_of (stored id' s') = map_of D"
proof -
  from run obtain ex s1 b1 s2 where
    g: "getOptionsForContentSlot conn id' s = (Inr ex, s1)" and
    r: "remove_missing conn id' D (map fst ex) False s1 = (Inr b1, s2)" and
    w: "write_entries conn id' ex D b1 s2 = (Inr changed, s')"
    by (rule setOptions_parts)
  note k = getOptionsForContentSlot_ok(1)[OF g]
  have s1: "stored id' s1 = stored id' s"
    using getOptionsForContentSlot_ok(3)[OF g] by (rule stored_cong)
  have has: "\<And>k. Map_has ex k \<longleftrightarrow> k \<in> fst ` set (stored id' s)"
    by (simp add: Map_has_keys k)
  from remove_missing_ok[OF r] s1 k
  have s2: "stored id' s2 = filter (\<lambda>p. hasOwnProperty D (fst p)) (stored id' s)"
    by (auto intro!: filter_cong)
  from write_entries_ok[OF w d] s2
  have "stored id' s' = map (written ex D) (filter (\<lambda>p. hasOwnProperty D (fst p)) (stored id' s)) @
          filter (\<lambda>p. \<not> Map_has ex (fst p)) D" by simp
  with reconciled[OF d has] have eq: "set (stored id' s') = set D" by simp
  have "map_of (stored id' s') k = map_of D k" for k
  proof (cases "map_of D k")
    case None
    then have "k \<notin> fst ` set (stored id' s')"
      by (simp add: eq map_of_eq_None_iff)
    then have "map_of (stored id' s') k = None"
      by (simp add: map_of_eq_None_iff)
    with None show ?thesis by simp
  next
    case (Some v)
    then have "(k, v) \<in> set (stored id' s')" using eq by (auto dest: map_of_SomeD)
    moreover have "\<And>v'. (k, v') \<in> set (stored id' s') \<Longrightarrow> v' = v"
      using eq d Some by (metis map_of_is_SomeI option.inject)
    ultimately show ?thesis using Some
      by (metis map_of_SomeD not_Some_eq weak_map_of_SomeI)
  qed
  with eq show ?thesis by auto
qed

lemma unique_match:
  "distinct (map f xs) \<Longrightarrow>
   (length (filter (\<lambda>x. f x = k \<and> P x) xs) = 1) = (\<exists>x \<in> set xs. f x = k \<and> P x)"
proof (induction xs)
  case Nil
  then show ?case by simp
next
  case (Cons x xs)
  show ?case
  proof (cases "f x = k")
    case True
    with Cons.prems have nk: "\<forall>y \<in> set xs. f y \<noteq> k" by (auto simp: image_iff)
    then have "filter (\<lambda>x. f x = k \<and> P x) xs = []" by (simp add: filter_empty_conv)
    with True nk show ?thesis by auto
  next
    case False
    with Cons show ?thesis by auto
  qed
qed

lemma affected_stored:
  "length (filter (\<lambda>r. matches i k r \<and> val r \<noteq> v) (contentslot_options s)) =
   length (filter (\<lambda>p. fst p = k \<and> snd p \<noteq> v) (stored i s))"
proof -
  have "filter (\<lambda>p. fst p = k \<and> snd p \<noteq> v) (stored i s) =
        map (\<lambda>r. (name r, val r)) (filter (\<lambda>r. matches i k r \<and> val r \<noteq> v) (contentslot_options s))"
    by (auto simp: stored_def filter_map comp_def matches_def intro!: arg_cong[where f="map _"] filter_cong)
  then show ?thesis by simp
qed

lemma affected_one:
  "distinct (map fst (stored i s)) \<Longrightarrow>
   (length (filter (\<lambda>r. matches i k r \<and> val r \<noteq> v) (contentslot_options s)) = 1) =
   (\<exists>v0. (k, v0) \<in> set (stored i s) \<and> v0 \<noteq> v)"
  unfolding affected_stored
  by (subst unique_match[where f=fst and P="\<lambda>p. snd p \<noteq> v"]) force+

lemma update_other:
  "k' \<noteq> key \<Longrightarrow>
   ((k', v0) \<in> (\<lambda>p. (fst p, if fst p = key then v else snd p)) ` set l) = ((k', v0) \<in> set l)"
  by (induction l) auto

lemma write_entries_flag:
  "write_entries conn i ex entries b s = (Inr b', s') \<Longrightarrow> distinct (map fst entries) \<Longrightarrow>
   distinct (map fst (stored i s)) \<Longrightarrow>
     distinct (map fst (stored i s')) \<and>
     b' = (b \<or> (\<exists>p \<in> set entries. differs ex (stored i s) p))"
proof (induction entries arbitrary: b s)
  case Nil
  then show ?case by simp
next
  case (Cons e entries)
  obtain key v where e: "e = (key, v)" by (cases e)
  from Cons.prems(2) e have dist: "distinct (map fst entries)" and fresh: "key \<notin> fst ` set entries"
    by auto
  show ?case
  proof (cases "Map_has ex key")
    case True
    with Cons.prems(1) e obtain r s1 where
      q: "query conn (UpdateOption v i key) s = (Inr r, s1)" and
      rest: "write_entries conn i ex entries (if affectedRows r = 1 then True else b) s1 = (Inr b', s')"
      by (auto split: prod.splits sum.splits)
    note u = query_UpdateOption_ok[OF q]
    from u have st: "stored i s1 = map (\<lambda>p. (fst p, if fst p = key then v else snd p)) (stored i s)"
      by (simp add: stored_update)
    then have d1: "distinct (map fst (stored i s1))"
      using Cons.prems(3) by (simp add: comp_def)
    have aff: "(affectedRows r = 1) = differs ex (stored i s) e"
      using u affected_one[OF Cons.prems(3)] True e by (simp add: differs_def)
    have same: "differs ex (stored i s1) p = differs ex (stored i s) p" if "p \<in> set entries" for p
    proof -
      from that fresh have "fst p \<noteq> key" by auto
      then show ?thesis unfolding st differs_def by (simp add: update_other)
    qed
    then have ex_same: "(\<exists>p \<in> set entries. differs ex (stored i s1) p) =
                        (\<exists>p \<in> set entries. differs ex (stored i s) p)"
      by (rule bex_cong[OF refl])
    from Cons.IH[OF rest dist d1] have
      d': "distinct (map fst (stored i s'))" and
      b': "b' = ((if affectedRows r = 1 then True else b) \<or> (\<exists>p \<in> set entries. differs ex (stored i s1) p))"
      by blast+
    from b' show ?thesis unfolding ex_same using d' aff by auto
  next
    case False
    with Cons.prems(1) e obtain r s1 where
      q: "query conn (InsertOption i key v) s = (Inr r, s1)" and
      rest: "write_entries conn i ex entries True s1 = (Inr b', s')"
      by (auto split: prod.splits sum.splits)
    note u = query_InsertOption_ok[OF q]
    from u have st: "stored i s1 = stored i s @ [(key, v)]"
      by (simp add: stored_insert)
    from u have "key \<notin> fst ` set (stored i s)" by (simp add: not_stored_key)
    with st Cons.prems(3) have d1: "distinct (map fst (stored i s1))" by simp
    have "differs ex (stored i s) e" using False e by (simp add: differs_def)
    with Cons.IH[OF rest dist d1] show ?thesis by simp
  qed
qed

lemma changed_iff:
  assumes dS: "distinct (map fst S)" and dD: "distinct (map fst D)"
    and ex: "\<And>k. Map_has ex k \<longleftrightarrow> k \<in> fst ` set S"
  shows "((\<exists>k \<in> fst ` set S. \<not> hasOwnProperty D k) \<or>
          (\<exists>p \<in> set D. differs ex (filter (\<lambda>q. hasOwnProperty D (fst q)) S) p))
         = (map_of S \<noteq> map_of D)"
proof -
  have has: "\<And>k. hasOwnProperty D k \<longleftrightarrow> k \<in> fst ` set D"
    by (simp add: hasOwnProperty_def)
  have eq_iff: "(map_of S = map_of D) = (set S = set D)"
    using dS dD by (rule map_of_inject_set)
  show ?thesis
  proof
    assume "(\<exists>k \<in> fst ` set S. \<not> hasOwnProperty D k) \<or>
          (\<exists>p \<in> set D. differs ex (filter (\<lambda>q. hasOwnProperty D (fst q)) S) p)"
    then show "map_of S \<noteq> map_of D"
    proof
      assume "\<exists>k \<in> fst ` set S. \<not> hasOwnProperty D k"
      then have "fst ` set S \<noteq> fst ` set D" by (auto simp: has)
      then have "set S \<noteq> set D" by auto
      then show ?thesis by (simp add: eq_iff)
    next
      assume "\<exists>p \<in> set D. differs ex (filter (\<lambda>q. hasOwnProperty D (fst q)) S) p"
      then obtain p where p: "p \<in> set D"
        and df: "differs ex (filter (\<lambda>q. hasOwnProperty D (fst q)) S) p" by blast
      show ?thesis
      proof (cases "Map_has ex (fst p)")
        case False
        then have "fst p \<notin> fst ` set S" by (simp add: ex)
        with p have "p \<notin> set S" by auto
        with p have "set S \<noteq> set D" by auto
        then show ?thesis by (simp add: eq_iff)
      next
        case True
        with df obtain v0 where v0: "(fst p, v0) \<in> set S" "v0 \<noteq> snd p"
          by (auto simp: differs_def)
        have "(fst p, v0) \<notin> set D"
        proof
          assume "(fst p, v0) \<in> set D"
          moreover from p have "(fst p, snd p) \<in> set D" by simp
          ultimately have "v0 = snd p" using dD by (rule eq_key_imp_eq_value[rotated])
          with v0 show False by simp
        qed
        with v0 have "set S \<noteq> set D" by auto
        then show ?thesis by (simp add: eq_iff)
      qed
    qed
  next
    assume "map_of S \<noteq> map_of D"
    then have ne: "set S \<noteq> set D" by (simp add: eq_iff)
    show "(\<exists>k \<in> fst ` set S. \<not> hasOwnProperty D k) \<or>
          (\<exists>p \<in> set D. differs ex (filter (\<lambda>q. hasOwnProperty D (fst q)) S) p)"
    proof (rule ccontr)
      assume n: "\<not> ((\<exists>k \<in> fst ` set S. \<not> hasOwnProperty D k) \<or>
          (\<exists>p \<in> set D. differs ex (filter (\<lambda>q. hasOwnProperty D (fst q)) S) p))"
      then have keys: "\<And>k. k \<in> fst ` set S \<Longrightarrow> k \<in> fst ` set D" by (auto simp: has)
      from n have nd: "\<And>p. p \<in> set D \<Longrightarrow> \<not> differs ex (filter (\<lambda>q. hasOwnProperty D (fst q)) S) p"
        by blast
      have inS: "fst p \<in> fst ` set S" if "p \<in> set D" for p
        using nd[OF that] by (simp add: differs_def ex)
      have val: "v0 = snd p" if "p \<in> set D" "(fst p, v0) \<in> set S" for p v0
      proof -
        from that(1) have "hasOwnProperty D (fst p)" by (auto simp: has)
        with that(2) have "(fst p, v0) \<in> set (filter (\<lambda>q. hasOwnProperty D (fst q)) S)" by simp
        with nd[OF that(1)] inS[OF that(1)] show ?thesis
          by (auto simp: differs_def ex)
      qed
      have "set S = set D"
      proof (intro set_eqI iffI)
        fix q assume q: "q \<in> set S"
        then have "fst q \<in> fst ` set D" by (intro keys) auto
        then obtain p where p: "p \<in> set D" "fst p = fst q" by auto
        from q p have "(fst p, snd q) \<in> set S" by simp
        from val[OF p(1) this] p show "q \<in> set D" by (metis prod.collapse)
      next
        fix p assume p: "p \<in> set D"
        from inS[OF p] obtain q where q: "q \<in> set S" "fst q = fst p" by auto
        then have "(fst p, snd q) \<in> set S" by (metis prod.collapse)
        from val[OF p this] q show "p \<in> set S" by (metis prod.collapse)
      qed
      with ne show False by simp
    qed
  qed
qed

lemma sync_plan_conn: "e \<in> set (sync_plan conn i ex D) \<Longrightarrow> fst e = conn"
  by (auto simp: sync_plan_def)

lemma sync_frame:
  assumes d: "distinct (map fst D)"
    and run: "setOptionsForContentSlot conn i (Some D) s = (Inr changed, s')"
  shows "contentslots s' = contentslots s"
    and "j \<noteq> i \<Longrightarrow> stored j s' = stored j s"
    and "\<exists>ex. fst ` set ex = fst ` set (stored i s) \<and> issued s' = issued s @ sync_plan conn i ex D"
proof -
  from run obtain ex s1 b1 s2 where
    g: "getOptionsForContentSlot conn i s = (Inr ex, s1)" and
    r: "remove_missing conn i D (map fst ex) False s1 = (Inr b1, s2)" and
    w: "write_entries conn i ex D b1 s2 = (Inr changed, s')"
    by (rule setOptions_parts)
  note G = getOptionsForContentSlot_ok[OF g]
  note R = remove_missing_ok[OF r]
  note W = write_entries_ok[OF w d]
  note R_other = R[THEN conjunct2, THEN conjunct1]
  note R_slots = R[THEN conjunct2, THEN conjunct2, THEN conjunct1]
  note R_issued = R[THEN conjunct2, THEN conjunct2, THEN conjunct2, THEN conjunct2]
  note W_other = W[THEN conjunct2, THEN conjunct1]
  note W_slots = W[THEN conjunct2, THEN conjunct2, THEN conjunct1]
  note W_issued = W[THEN conjunct2, THEN conjunct2, THEN conjunct2]
  show "contentslots s' = contentslots s"
    by (simp only: W_slots R_slots G(4))
  show "stored j s' = stored j s" if "j \<noteq> i"
  proof -
    have "stored j s1 = stored j s" using G(3) by (rule stored_cong)
    moreover from R_other that have "stored j s2 = stored j s1" by blast
    moreover from W_other that have "stored j s' = stored j s2" by blast
    ultimately show ?thesis by simp
  qed
  have "issued s' = issued s @ sync_plan conn i ex D"
    unfolding W_issued R_issued G(5) sync_plan_def by simp
  with G(1) show "\<exists>ex. fst ` set ex = fst ` set (stored i s) \<and> issued s' = issued s @ sync_plan conn i ex D"
    by blast
qed

lemma sync_changed:
  assumes u: "distinct (map fst (stored i s))" and d: "distinct (map fst D)"
    and run: "setOptionsForContentSlot conn i (Some D) s = (Inr changed, s')"
  shows "changed = (map_of (stored i s) \<noteq> map_of D)"
    and "distinct (map fst (stored i s'))"
    and "issued s' = issued s @ sync_plan conn i (stored i s) D"
proof -
  from run obtain ex s1 b1 s2 where
    g: "getOptionsForContentSlot conn i s = (Inr ex, s1)" and
    r: "remove_missing conn i D (map fst ex) False s1 = (Inr b1, s2)" and
    w: "write_entries conn i ex D b1 s2 = (Inr changed, s')"
    by (rule setOptions_parts)
  note G = getOptionsForContentSlot_ok[OF g]
  from G(2)[OF u] have ex: "ex = stored i s" .
  have s1: "stored i s1 = stored i s" using G(3) by (rule stored_cong)
  note R = remove_missing_ok[OF r]
  note R_stored = R[THEN conjunct1]
  note R_flag = R[THEN conjunct2, THEN conjunct2, THEN conjunct2, THEN conjunct1]
  note R_issued = R[THEN conjunct2, THEN conjunct2, THEN conjunct2, THEN conjunct2]
  have keep: "(\<not> (fst p \<in> set (map fst ex) \<and> \<not> hasOwnProperty D (fst p))) = hasOwnProperty D (fst p)"
    if "p \<in> set (stored i s)" for p
    using that by (auto simp: ex)
  have s2: "stored i s2 = filter (\<lambda>q. hasOwnProperty D (fst q)) (stored i s)"
    unfolding R_stored s1 using keep by (rule filter_cong[OF refl])
  with u have u2: "distinct (map fst (stored i s2))" by (simp add: distinct_map_filter)
  from R_flag have b1: "b1 = (\<exists>k \<in> fst ` set (stored i s). \<not> hasOwnProperty D k)"
    by (simp add: ex)
  note F = write_entries_flag[OF w d u2]
  from F show "distinct (map fst (stored i s'))" by (rule conjunct1)
  have has: "\<And>k. Map_has ex k \<longleftrightarrow> k \<in> fst ` set (stored i s)"
    by (simp add: ex Map_has_keys)
  from F[THEN conjunct2] have "changed = ((\<exists>k \<in> fst ` set (stored i s). \<not> hasOwnProperty D k) \<or>
      (\<exists>p \<in> set D. differs ex (filter (\<lambda>q. hasOwnProperty D (fst q)) (stored i s)) p))"
    unfolding b1 s2 .
  also have "\<dots> = (map_of (stored i s) \<noteq> map_of D)"
    using u d has by (rule changed_iff)
  finally show "changed = (map_of (stored i s) \<noteq> map_of D)" .
  note W = write_entries_ok[OF w d]
  note W_issued = W[THEN conjunct2, THEN conjunct2, THEN conjunct2]
  show "issued s' = issued s @ sync_plan conn i (stored i s) D"
    unfolding W_issued R_issued G(5) sync_plan_def ex by simp
qed

lemma sync_plan_update:
  assumes "(k, v) \<in> set D" and "Map_has ex k"
  shows "(conn, Modify (UpdateOption v i k)) \<in> set (sync_plan conn i ex D)"
proof -
  let ?f = "\<lambda>p. (conn, Modify (if Map_has ex (fst p) then UpdateOption (snd p) i (fst p)
                                else InsertOption i (fst p) (snd p)))"
  from assms(2) have "?f (k, v) = (conn, Modify (UpdateOption v i k))" by simp
  with assms(1) have "(conn, Modify (UpdateOption v i k)) \<in> ?f ` set D"
    by (metis (no_types, lifting) image_eqI)
  then show ?thesis by (simp add: sync_plan_def)
qed

lemmas run_defs =
  setOptionsForContentSlot_def getOptionsForContentSlot_def query_options_def query_def
  query_slots_def send_def next_fault_def hasOwnProperty_def Map_has_def matches_def
  stored_def demo_store_def sync_plan_def slot_of_def

section \<open>The end state of a synchronization\<close>

text \<open>
  C1. For every starting store and every desired option object \<open>D\<close> (an object has each
  key once), when \<^verbatim>\<open>setOptionsForContentSlot(conn, id, D)\<close> completes successfully the
  option rows persisted for \<open>id\<close> carry exactly the pairs of \<open>D\<close>: the persisted key set
  is the key set of \<open>D\<close>, every persisted value is the value \<open>D\<close> gives its key, and a
  read of the rows as a map gives \<open>D\<close>. Nothing is assumed about the rows the slot had
  before, so no stale key survives.
\<close>

theorem setOptions_end_state:
  assumes d: "distinct (map fst D)"
    and run: "setOptionsForContentSlot conn id' (Some D) s = (Inr changed, s')"
  shows "set (stored id' s') = set D \<and> map_of (stored id' s') = map_of D"
  using assms by (rule sync_stored)

theorem setOptions_end_state_witness:
  "distinct (map fst [(''color'', ''blue''), (''size'', ''large'')]) \<and>
   fst (setOptionsForContentSlot 0 1 (Some [(''color'', ''blue''), (''size'', ''large'')]) demo_store)
     = Inr True \<and>
   set (stored 1 (snd (setOptionsForContentSlot 0 1
      (Some [(''color'', ''blue''), (''size'', ''large'')]) demo_store))) =
     set [(''color'', ''blue''), (''size'', ''large'')]"
proof -
  let ?D = "[(''color'', ''blue''), (''size'', ''large'')]"
  let ?out = "setOptionsForContentSlot 0 1 (Some ?D) demo_store"
  have d: "distinct (map fst ?D)" by simp
  have f: "fst ?out = Inr True" by (simp add: run_defs)
  then have run: "?out = (Inr True, snd ?out)" by (metis prod.collapse)
  from setOptions_end_state[OF d run] d f show ?thesis by blast
qed

section \<open>The changed flag of a synchronization\<close>

text \<open>
  C2. Let the option rows of the slot satisfy the table's unique key (each name once) and
  let \<open>D\<close> be an object. When \<^verbatim>\<open>setOptionsForContentSlot(conn, id, D)\<close> completes
  successfully, it returns \<^verbatim>\<open>false\<close> exactly when the persisted options and \<open>D\<close> are
  equal as maps, and \<^verbatim>\<open>true\<close> exactly when they differ (a key added, removed or given
  another value). The store reports an update as affecting a row only when the value
  differs. The statements issued are the read, one delete per stale key, and one update
  or insert per entry of \<open>D\<close>: an entry whose stored value is already the desired one
  still gets its update statement, and is not counted as a change.
\<close>

theorem setOptions_changed_iff:
  assumes "distinct (map fst (stored id' s))" and "distinct (map fst D)"
    and "setOptionsForContentSlot conn id' (Some D) s = (Inr changed, s')"
  shows "(changed = False \<longleftrightarrow> map_of (stored id' s) = map_of D) \<and>
         (changed = True \<longleftrightarrow> map_of (stored id' s) \<noteq> map_of D) \<and>
         issued s' = issued s @ sync_plan conn id' (stored id' s) D \<and>
         (\<forall>k v. (k, v) \<in> set D \<and> (k, v) \<in> set (stored id' s) \<longrightarrow>
            (conn, Modify (UpdateOption v id' k)) \<in> set (issued s'))"
proof (intro conjI allI impI)
  note S = sync_changed[OF assms]
  from S(1) show "changed = False \<longleftrightarrow> map_of (stored id' s) = map_of D" by simp
  from S(1) show "changed = True \<longleftrightarrow> map_of (stored id' s) \<noteq> map_of D" by simp
  from S(3) show "issued s' = issued s @ sync_plan conn id' (stored id' s) D" .
next
  fix k v assume kv: "(k, v) \<in> set D \<and> (k, v) \<in> set (stored id' s)"
  then have "k \<in> fst ` set (stored id' s)" by (metis fst_conv image_eqI)
  then have "Map_has (stored id' s) k" by (simp add: Map_has_keys)
  with kv have "(conn, Modify (UpdateOption v id' k)) \<in> set (sync_plan conn id' (stored id' s) D)"
    by (intro sync_plan_update) simp_all
  then show "(conn, Modify (UpdateOption v id' k)) \<in> set (issued s')"
    unfolding sync_changed(3)[OF assms] by simp
qed

theorem setOptions_changed_iff_witness:
  "distinct (map fst (stored 1 demo_store)) \<and>
   distinct (map fst [(''color'', ''red''), (''old'', ''x'')]) \<and>
   fst (setOptionsForContentSlot 0 1 (Some [(''color'', ''red''), (''old'', ''x'')]) demo_store)
     = Inr False \<and>
   map_of (stored 1 demo_store) = map_of [(''color'', ''red''), (''old'', ''x'')] \<and>
   issued (snd (setOptionsForContentSlot 0 1 (Some [(''color'', ''red''), (''old'', ''x'')]) demo_store))
     = [(0, SelectOptions (ForContentSlot 1)),
        (0, Modify (UpdateOption ''red'' 1 ''color'')),
        (0, Modify (UpdateOption ''x'' 1 ''old''))]"
proof -
  let ?D = "[(''color'', ''red''), (''old'', ''x'')]"
  let ?out = "setOptionsForContentSlot 0 1 (Some ?D) demo_store"
  have u: "distinct (map fst (stored 1 demo_store))" by (simp add: run_defs)
  have d: "distinct (map fst ?D)" by simp
  have f: "fst ?out = Inr False" by (simp add: run_defs)
  then have run: "?out = (Inr False, snd ?out)" by (metis prod.collapse)
  have st: "stored 1 demo_store = ?D" by (simp add: run_defs)
  have pl: "issued demo_store @ sync_plan 0 1 ?D ?D =
     [(0, SelectOptions (ForContentSlot 1)),
        (0, Modify (UpdateOption ''red'' 1 ''color'')),
        (0, Modify (UpdateOption ''x'' 1 ''old''))]"
    by (simp add: run_defs)
  from setOptions_changed_iff[OF u d run] u d f st pl show ?thesis by simp
qed

section \<open>The connection pool and the scope of a connection\<close>

lemma next_fault_driver: "next_fault s = (Some e, s') \<Longrightarrow> driver_exception e"
  by (auto simp: next_fault_def split: list.splits option.splits)

lemma getConnection_fail:
  "getConnection s = (Inl e, s1) \<Longrightarrow>
     driver_exception e \<and> leased s1 = leased s \<and> issued s1 = issued s \<and>
     contentslots s1 = contentslots s \<and> contentslot_options s1 = contentslot_options s"
proof -
  assume g: "getConnection s = (Inl e, s1)"
  then have nf: "next_fault s = (Some e, s1)"
    by (auto simp: getConnection_def split: prod.splits option.splits)
  from next_fault_driver[OF nf] next_fault_fields[OF nf] show ?thesis by simp
qed

lemma getConnection_ok:
  "getConnection s = (Inr conn, s1) \<Longrightarrow>
     conn = next_conn s \<and> leased s1 = conn # leased s \<and> issued s1 = issued s \<and>
     contentslots s1 = contentslots s \<and> contentslot_options s1 = contentslot_options s \<and>
     auto_increment s1 = auto_increment s"
  unfolding getConnection_def
  by (auto split: prod.splits option.splits dest!: next_fault_fields)

lemma release_fields:
  "contentslots (release conn s) = contentslots s"
  "contentslot_options (release conn s) = contentslot_options s"
  "issued (release conn s) = issued s"
  "auto_increment (release conn s) = auto_increment s"
  "leased (release conn s) = remove1 conn (leased s)"
  by (simp_all add: release_def)

lemma stored_release: "stored i (release conn s) = stored i s"
  by (simp add: stored_def release_fields)

text \<open>Leases are touched by the pool only.\<close>

lemma execute_leased: "execute st s = Inr (r, s') \<Longrightarrow> leased s' = leased s"
  by (cases st) (auto split: if_splits simp: Let_def)

lemma query_leased: "leased (snd (query conn st s)) = leased s"
  unfolding query_def
  by (auto split: prod.splits option.splits sum.splits dest!: send_fields execute_leased)

lemma query_slots_leased: "leased (snd (query_slots conn q s)) = leased s"
  unfolding query_slots_def
  by (auto split: prod.splits option.splits dest!: send_fields)

lemma query_options_leased: "leased (snd (query_options conn q s)) = leased s"
  unfolding query_options_def
  by (auto split: prod.splits option.splits dest!: send_fields)

lemma remove_missing_leased: "leased (snd (remove_missing conn i D keys b s)) = leased s"
proof (induction keys arbitrary: b s)
  case Nil
  then show ?case by simp
next
  case (Cons key keys)
  show ?case
  proof (cases "hasOwnProperty D key")
    case True
    with Cons.IH show ?thesis by simp
  next
    case False
    obtain r s1 where q: "query conn (DeleteOption i key) s = (r, s1)" by (cases "query conn (DeleteOption i key) s")
    with query_leased[of conn "DeleteOption i key" s] have l: "leased s1 = leased s" by simp
    show ?thesis
    proof (cases r)
      case (Inl e)
      with False q l show ?thesis by simp
    next
      case (Inr res)
      with False q l Cons.IH[of True s1] show ?thesis by simp
    qed
  qed
qed

lemma write_entries_leased: "leased (snd (write_entries conn i ex entries b s)) = leased s"
proof (induction entries arbitrary: b s)
  case Nil
  then show ?case by simp
next
  case (Cons e entries)
  obtain key v where e: "e = (key, v)" by (cases e)
  show ?case
  proof (cases "Map_has ex key")
    case True
    obtain r s1 where q: "query conn (UpdateOption v i key) s = (r, s1)"
      by (cases "query conn (UpdateOption v i key) s")
    with query_leased[of conn "UpdateOption v i key" s] have l: "leased s1 = leased s" by simp
    show ?thesis
    proof (cases r)
      case (Inl x)
      with True q l e show ?thesis by simp
    next
      case (Inr res)
      with True q l e Cons.IH[of _ s1] show ?thesis by simp
    qed
  next
    case False
    obtain r s1 where q: "query conn (InsertOption i key v) s = (r, s1)"
      by (cases "query conn (InsertOption i key v) s")
    with query_leased[of conn "InsertOption i key v" s] have l: "leased s1 = leased s" by simp
    show ?thesis
    proof (cases r)
      case (Inl x)
      with False q l e show ?thesis by simp
    next
      case (Inr res)
      with False q l e Cons.IH[of True s1] show ?thesis by simp
    qed
  qed
qed

lemma getOptionsForContentSlot_leased: "leased (snd (getOptionsForContentSlot conn i s)) = leased s"
  unfolding getOptionsForContentSlot_def
  using query_options_leased[of conn "ForContentSlot i" s]
  by (auto split: prod.splits sum.splits)

lemma setOptions_leased: "leased (snd (setOptionsForContentSlot conn i options s)) = leased s"
proof -
  define D where "D = (case options of None \<Rightarrow> [] | Some obj \<Rightarrow> obj)"
  obtain r1 s1 where g: "getOptionsForContentSlot conn i s = (r1, s1)"
    by (cases "getOptionsForContentSlot conn i s")
  with getOptionsForContentSlot_leased[of conn i s] have l1: "leased s1 = leased s" by simp
  show ?thesis
  proof (cases r1)
    case (Inl e)
    with g l1 show ?thesis by (simp add: setOptionsForContentSlot_def)
  next
    case (Inr ex)
    obtain r2 s2 where r: "remove_missing conn i D (map fst ex) False s1 = (r2, s2)"
      by (cases "remove_missing conn i D (map fst ex) False s1")
    with remove_missing_leased[of conn i D "map fst ex" False s1] l1 have l2: "leased s2 = leased s" by simp
    show ?thesis
    proof (cases r2)
      case (Inl e)
      with Inr g r l2 show ?thesis by (simp add: setOptionsForContentSlot_def D_def)
    next
      case (Inr b1)
      with \<open>r1 = Inr ex\<close> g r l2 write_entries_leased[of conn i ex D b1 s2] show ?thesis
        by (simp add: setOptionsForContentSlot_def D_def)
    qed
  qed
qed

lemma getOptionsForContentSlots_leased: "leased (snd (getOptionsForContentSlots conn ids s)) = leased s"
  unfolding getOptionsForContentSlots_def
  using query_options_leased[of conn "ForContentSlots ids" s]
  by (auto split: prod.splits sum.splits)

lemma scoped_release:
  assumes "\<And>conn s1. leased (snd (body conn s1)) = leased s1"
  shows "leased (snd (finally_release (try_with_connection body s))) = leased s"
proof (cases "getConnection s")
  case (Pair r s1)
  show ?thesis
  proof (cases r)
    case (Inl e)
    with Pair getConnection_fail[of s e s1] show ?thesis
      by (simp add: try_with_connection_def finally_release_def)
  next
    case (Inr conn)
    with Pair getConnection_ok[of s conn s1] have l: "leased s1 = conn # leased s" by simp
    obtain r2 s2 where b: "body conn s1 = (r2, s2)" by (cases "body conn s1")
    with assms[of conn s1] l have "leased s2 = conn # leased s" by simp
    with Pair Inr b show ?thesis
      by (simp add: try_with_connection_def finally_release_def release_def)
  qed
qed

lemma scoped_release_catch:
  assumes "\<And>conn s1. leased (snd (body conn s1)) = leased s1"
  shows "leased (snd (finally_release (catch_clause (try_with_connection body s)))) = leased s"
proof -
  obtain c r s2 where t: "try_with_connection body s = (c, r, s2)"
    by (cases "try_with_connection body s") auto
  have "finally_release (catch_clause (c, r, s2)) =
        (fst (snd (catch_clause (c, r, s2))), snd (finally_release (c, r, s2)))"
    by (cases c; cases r) (simp_all add: catch_clause_def finally_release_def)
  with t scoped_release[where body=body and s=s, OF assms] show ?thesis by simp
qed

lemma try_block_fail:
  "try_with_connection body s = (None, r, s1) \<Longrightarrow>
     (\<exists>e. r = Inl e \<and> getConnection s = (Inl e, s1))"
  by (auto simp: try_with_connection_def split: prod.splits sum.splits)

lemma try_block_ok:
  "try_with_connection body s = (Some conn, r, s2) \<Longrightarrow>
     (\<exists>s1. getConnection s = (Inr conn, s1) \<and> body conn s1 = (r, s2))"
  by (auto simp: try_with_connection_def split: prod.splits sum.splits)

lemma scoped_ok:
  assumes "finally_release (try_with_connection body s) = (Inr r, s')"
  obtains s1 s2 where "getConnection s = (Inr (next_conn s), s1)"
    and "body (next_conn s) s1 = (Inr r, s2)" and "s' = release (next_conn s) s2"
proof -
  obtain c r0 s2 where t: "try_with_connection body s = (c, r0, s2)"
    by (cases "try_with_connection body s") auto
  show ?thesis
  proof (cases c)
    case None
    with t try_block_fail[of body s r0 s2] assms show ?thesis
      by (auto simp: finally_release_def)
  next
    case (Some conn)
    with t try_block_ok[of body s conn r0 s2] obtain s1 where
      g: "getConnection s = (Inr conn, s1)" and b: "body conn s1 = (r0, s2)" by auto
    from getConnection_ok[OF g] have c: "conn = next_conn s" by simp
    from assms t Some have "r0 = Inr r" "s' = release conn s2"
      by (auto simp: finally_release_def)
    with g b c that show ?thesis by simp
  qed
qed

lemma no_fault: "faults s = [] \<Longrightarrow> next_fault s = (None, s)"
  by (simp add: next_fault_def)

lemma getConnection_no_fault:
  "faults s = [] \<Longrightarrow> \<exists>s1. getConnection s = (Inr (next_conn s), s1) \<and> faults s1 = []"
  by (simp add: getConnection_def no_fault)

lemma query_DeleteSlot_ok:
  "query conn (DeleteSlot i) s = (Inr r, s') \<Longrightarrow>
     affectedRows r = (if i \<in> id_col ` set (contentslots s) then 1 else 0) \<and>
     contentslots s' = delete_first i (contentslots s) \<and>
     issued s' = issued s @ [(conn, Modify (DeleteSlot i))]"
  unfolding query_def
  by (auto split: prod.splits option.splits dest!: send_fields)

lemma query_DeleteSlot_no_fault:
  "faults s = [] \<Longrightarrow> \<exists>r s'. query conn (DeleteSlot i) s = (Inr r, s')"
  by (simp add: query_def send_def next_fault_def)

lemma delete_first_absent: "i \<notin> id_col ` set rows \<Longrightarrow> delete_first i rows = rows"
  by (induction rows) auto

lemma delete_first_present:
  "i \<in> id_col ` set rows \<Longrightarrow>
   \<exists>xs row ys. rows = xs @ row # ys \<and> id_col row = i \<and> delete_first i rows = xs @ ys"
proof (induction rows)
  case Nil
  then show ?case by simp
next
  case (Cons r rows)
  show ?case
  proof (cases "id_col r = i")
    case True
    then have "r # rows = [] @ r # rows \<and> id_col r = i \<and> delete_first i (r # rows) = [] @ rows"
      by simp
    then show ?thesis by blast
  next
    case False
    with Cons.prems have "i \<in> id_col ` set rows" by auto
    from Cons.IH[OF this] obtain xs row ys where
      "rows = xs @ row # ys" "id_col row = i" "delete_first i rows = xs @ ys" by blast
    with False have "r # rows = (r # xs) @ row # ys \<and> id_col row = i \<and>
        delete_first i (r # rows) = (r # xs) @ ys" by simp
    then show ?thesis by blast
  qed
qed

lemma query_slots_ok:
  "query_slots conn q s = (Inr rows, s') \<Longrightarrow>
     rows = select_slots q s \<and>
     contentslots s' = contentslots s \<and> contentslot_options s' = contentslot_options s \<and>
     issued s' = issued s @ [(conn, SelectSlots q)]"
  unfolding query_slots_def
  by (cases q) (auto split: prod.splits option.splits dest!: send_fields)

lemmas op_defs =
  createContentSlot_def createContentSlot_try_def deleteOne_def getContentSlotsByViewId_def
  getContentSlotsByComponentType_def updateContentSlot_def getOptionsForContentSlots_def
  try_with_connection_def finally_release_def catch_clause_def getConnection_def release_def
  rowToObject_def rowToObjectWithOptions_def assign_def

section \<open>Deleting a slot\<close>

text \<open>
  C6. For every id, when \<^verbatim>\<open>deleteOne(id)\<close> completes without a storage failure it
  returns the id exactly when a slot row with that id existed (the
  \<^verbatim>\<open>DELETE ... LIMIT 1\<close> then reports one affected row) and \<^verbatim>\<open>null\<close> otherwise. In
  the first case one row with that id is removed and all others stay, in the second no
  row is removed; at most one row goes. When no storage failure is pending the call does
  complete, so a missing row is answered by the value \<^verbatim>\<open>null\<close>, not by an error.
\<close>

theorem deleteOne_result:
  "(deleteOne id' s = (Inr r, s') \<longrightarrow>
      r = (if id' \<in> id_col ` set (contentslots s) then Some id' else None) \<and>
      (if id' \<in> id_col ` set (contentslots s)
       then \<exists>xs row ys. contentslots s = xs @ row # ys \<and> id_col row = id' \<and>
              contentslots s' = xs @ ys
       else contentslots s' = contentslots s) \<and>
      issued s' = issued s @ [(next_conn s, Modify (DeleteSlot id'))]) \<and>
   (faults s = [] \<longrightarrow> (\<exists>r s'. deleteOne id' s = (Inr r, s')))"
proof (intro conjI impI)
  assume run: "deleteOne id' s = (Inr r, s')"
  let ?c = "next_conn s"
  from run obtain s1 s2 where
    g: "getConnection s = (Inr ?c, s1)" and
    b: "(case query ?c (DeleteSlot id') s1 of
           (Inl e, s2) \<Rightarrow> (Inl e, s2)
         | (Inr result, s2) \<Rightarrow> (Inr (if affectedRows result = 1 then Some id' else None), s2))
        = (Inr r, s2)" and
    s': "s' = release ?c s2"
    unfolding deleteOne_def by (rule scoped_ok)
  from b obtain result where
    q: "query ?c (DeleteSlot id') s1 = (Inr result, s2)" and
    r: "r = (if affectedRows result = 1 then Some id' else None)"
    by (auto split: prod.splits sum.splits)
  note G = getConnection_ok[OF g]
  note Q = query_DeleteSlot_ok[OF q]
  from r Q G show "r = (if id' \<in> id_col ` set (contentslots s) then Some id' else None)"
    by simp
  from Q G s' have cs: "contentslots s' = delete_first id' (contentslots s)"
    by (simp add: release_fields)
  show "if id' \<in> id_col ` set (contentslots s)
       then \<exists>xs row ys. contentslots s = xs @ row # ys \<and> id_col row = id' \<and>
              contentslots s' = xs @ ys
       else contentslots s' = contentslots s"
    using delete_first_present[of id' "contentslots s"] delete_first_absent[of id' "contentslots s"]
    unfolding cs by (simp split: if_splits)
  from Q G s' show "issued s' = issued s @ [(next_conn s, Modify (DeleteSlot id'))]"
    by (simp add: release_fields)
next
  assume nf: "faults s = []"
  from getConnection_no_fault[OF nf] obtain s1 where
    g: "getConnection s = (Inr (next_conn s), s1)" and nf1: "faults s1 = []" by blast
  from query_DeleteSlot_no_fault[OF nf1] obtain res s2 where
    q: "query (next_conn s) (DeleteSlot id') s1 = (Inr res, s2)" by blast
  from g q show "\<exists>r s'. deleteOne id' s = (Inr r, s')"
    by (simp add: deleteOne_def try_with_connection_def finally_release_def)
qed

theorem deleteOne_result_witness:
  "faults demo_store = [] \<and>
   9 \<notin> id_col ` set (contentslots demo_store) \<and>
   fst (deleteOne 9 demo_store) = Inr None \<and>
   contentslots (snd (deleteOne 9 demo_store)) = contentslots demo_store \<and>
   fst (deleteOne 1 demo_store) = Inr (Some 1) \<and>
   contentslots (snd (deleteOne 1 demo_store)) =
     [slot_of 2 1 ''Clock'' 3 1 5 2, slot_of 3 1 ''Text'' 1 2 5 3]"
proof -
  let ?a = "deleteOne 9 demo_store" and ?b = "deleteOne 1 demo_store"
  have nf: "faults demo_store = []" by (simp add: demo_store_def)
  have absent: "9 \<notin> id_col ` set (contentslots demo_store)" by (simp add: run_defs op_defs)
  from deleteOne_result[of 9 demo_store] nf
  obtain r s' where run: "?a = (Inr r, s')" by blast
  from deleteOne_result[of 9 demo_store r s'] run absent have "r = None" by simp
  with run have fa: "fst ?a = Inr None" by simp
  then have ra: "?a = (Inr None, snd ?a)" by (metis prod.collapse)
  from deleteOne_result[of 9 demo_store None "snd ?a"] ra absent
  have ca: "contentslots (snd ?a) = contentslots demo_store" by simp
  have fb: "fst ?b = Inr (Some 1)" by (simp add: run_defs op_defs)
  have cb: "contentslots (snd ?b) = [slot_of 2 1 ''Clock'' 3 1 5 2, slot_of 3 1 ''Text'' 1 2 5 3]"
    by (simp add: run_defs op_defs)
  from nf absent fa ca fb cb show ?thesis by simp
qed

section \<open>Reading by component type\<close>

text \<open>
  C9. For every component type, when \<^verbatim>\<open>getContentSlotsByComponentType\<close> completes it
  returns the matching slot rows mapped through \<^verbatim>\<open>rowToObject\<close>; every returned
  aggregate has the empty options object, whatever options are persisted for the slot;
  the only statement issued is the query on the slot table, so the option table is never
  read; and \<^verbatim>\<open>rowToObject\<close> always sets \<^verbatim>\<open>options\<close> to the empty object.
\<close>

theorem byComponentType_options_empty:
  "(getContentSlotsByComponentType componentType s = (Inr slots, s') \<longrightarrow>
      slots = map rowToObject (filter (\<lambda>r. component_type r = componentType) (contentslots s)) \<and>
      (\<forall>object \<in> set slots. obj_options object = Map.empty) \<and>
      issued s' = issued s @ [(next_conn s, SelectSlots (ByComponentType componentType))]) \<and>
   obj_options (rowToObject row) = Map.empty"
proof (intro conjI impI)
  assume run: "getContentSlotsByComponentType componentType s = (Inr slots, s')"
  let ?c = "next_conn s"
  from run obtain s1 s2 where
    g: "getConnection s = (Inr ?c, s1)" and
    b: "(case query_slots ?c (ByComponentType componentType) s1 of
           (Inl e, s2) \<Rightarrow> (Inl e, s2)
         | (Inr rows, s2) \<Rightarrow> (Inr (map rowToObject rows), s2)) = (Inr slots, s2)" and
    s': "s' = release ?c s2"
    unfolding getContentSlotsByComponentType_def by (rule scoped_ok)
  from b obtain rows where
    q: "query_slots ?c (ByComponentType componentType) s1 = (Inr rows, s2)" and
    r: "slots = map rowToObject rows"
    by (auto split: prod.splits sum.splits)
  note G = getConnection_ok[OF g]
  note Q = query_slots_ok[OF q]
  from r Q G show sl: "slots = map rowToObject (filter (\<lambda>r. component_type r = componentType) (contentslots s))"
    by simp
  show "\<forall>object \<in> set slots. obj_options object = Map.empty"
    unfolding sl by (simp add: rowToObject_def)
  from Q G s' show "issued s' = issued s @ [(next_conn s, SelectSlots (ByComponentType componentType))]"
    by (simp add: release_fields)
next
  show "obj_options (rowToObject row) = Map.empty" by (simp add: rowToObject_def)
qed

theorem byComponentType_options_empty_witness:
  "fst (getContentSlotsByComponentType ''Banner'' demo_store) =
     Inr [rowToObject (slot_of 1 1 ''Banner'' 1 1 3 2)] \<and>
   obj_options (rowToObject (slot_of 1 1 ''Banner'' 1 1 3 2)) = Map.empty \<and>
   stored 1 demo_store = [(''color'', ''red''), (''old'', ''x'')] \<and>
   issued (snd (getContentSlotsByComponentType ''Banner'' demo_store)) =
     [(0, SelectSlots (ByComponentType ''Banner''))]"
proof -
  let ?a = "getContentSlotsByComponentType ''Banner'' demo_store"
  have fa: "fst ?a = Inr [rowToObject (slot_of 1 1 ''Banner'' 1 1 3 2)]"
    by (simp add: run_defs op_defs)
  then have ra: "?a = (Inr [rowToObject (slot_of 1 1 ''Banner'' 1 1 3 2)], snd ?a)"
    by (metis prod.collapse)
  have st: "stored 1 demo_store = [(''color'', ''red''), (''old'', ''x'')]" by (simp add: run_defs)
  have nc: "next_conn demo_store = 0" "issued demo_store = []" by (simp_all add: demo_store_def)
  from byComponentType_options_empty[of "''Banner''" demo_store _ "snd ?a" "slot_of 1 1 ''Banner'' 1 1 3 2"]
    ra fa st nc show ?thesis by simp
qed

section \<open>Release of the connection\<close>

text \<open>
  C8. For every operation, every argument and every store, whatever the outcome (a
  value, a duplicate-key failure, any other failure, a failure of the pool itself), the
  connections leased after the call are the connections leased before it: a connection
  the operation acquired has been released. The try block of \<^verbatim>\<open>createContentSlot\<close>
  ends with its connection still leased whenever it acquired one, on every path, and it
  is the one finally block (\<open>finally_release\<close>, applied once to the whole try block)
  that gives it back.
\<close>

theorem connection_always_released:
  "leased (snd (createContentSlot componentType viewId columnStart rowStart columnEnd rowEnd options s))
     = leased s \<and>
   leased (snd (deleteOne id' s)) = leased s \<and>
   leased (snd (getContentSlotsByViewId viewId s)) = leased s \<and>
   leased (snd (getContentSlotsByComponentType componentType s)) = leased s \<and>
   leased (snd (updateContentSlot id' componentType viewId columnStart rowStart columnEnd rowEnd options s))
     = leased s \<and>
   (case createContentSlot_try componentType viewId columnStart rowStart columnEnd rowEnd options s of
      (None, r, s1) \<Rightarrow> leased s1 = leased s
    | (Some conn, r, s1) \<Rightarrow> leased s1 = conn # leased s)"
proof (intro conjI)
  have create_body: "leased (snd (case query conn (InsertSlot viewId componentType columnStart rowStart columnEnd rowEnd) s1 of
         (Inl e, s2) \<Rightarrow> (Inl e, s2)
       | (Inr insertResult, s2) \<Rightarrow>
           (let contentSlotId = insertId insertResult in
            case setOptionsForContentSlot conn contentSlotId options s2 of
              (Inl e, s3) \<Rightarrow> (Inl e, s3)
            | (Inr changed, s3) \<Rightarrow> (Inr contentSlotId, s3)))) = leased s1" for conn s1
    using query_leased[of conn "InsertSlot viewId componentType columnStart rowStart columnEnd rowEnd" s1]
      setOptions_leased[of conn _ options]
    by (auto split: prod.splits sum.splits simp: Let_def) (metis snd_conv)+
  show "leased (snd (createContentSlot componentType viewId columnStart rowStart columnEnd rowEnd options s))
     = leased s"
    unfolding createContentSlot_def createContentSlot_try_def
    by (rule scoped_release_catch) (rule create_body)
  show "leased (snd (deleteOne id' s)) = leased s"
    unfolding deleteOne_def
  proof (rule scoped_release)
    fix conn s1
    show "leased (snd (case query conn (DeleteSlot id') s1 of
         (Inl e, s2) \<Rightarrow> (Inl e, s2)
       | (Inr result, s2) \<Rightarrow> (Inr (if affectedRows result = 1 then Some id' else None), s2))) = leased s1"
      using query_leased[of conn "DeleteSlot id'" s1]
      by (auto split: prod.splits sum.splits)
  qed
  show "leased (snd (getContentSlotsByViewId viewId s)) = leased s"
    unfolding getContentSlotsByViewId_def
  proof (rule scoped_release)
    fix conn s1
    show "leased (snd (case query_slots conn (ByViewId viewId) s1 of
         (Inl e, s2) \<Rightarrow> (Inl e, s2)
       | (Inr rows, s2) \<Rightarrow>
           if length rows = 0 then (Inr [], s2)
           else
             (let contentSlotIds = map id_col rows in
              case getOptionsForContentSlots conn contentSlotIds s2 of
                (Inl e, s3) \<Rightarrow> (Inl e, s3)
              | (Inr options, s3) \<Rightarrow>
                  (map_rows (\<lambda>row. rowToObjectWithOptions row (map_of options (id_col row))) rows,
                   s3)))) = leased s1"
      using query_slots_leased[of conn "ByViewId viewId" s1]
        getOptionsForContentSlots_leased[of conn]
      by (auto split: prod.splits sum.splits simp: Let_def) (metis snd_conv)+
  qed
  show "leased (snd (getContentSlotsByComponentType componentType s)) = leased s"
    unfolding getContentSlotsByComponentType_def
  proof (rule scoped_release)
    fix conn s1
    show "leased (snd (case query_slots conn (ByComponentType componentType) s1 of
         (Inl e, s2) \<Rightarrow> (Inl e, s2)
       | (Inr rows, s2) \<Rightarrow> (Inr (map rowToObject rows), s2))) = leased s1"
      using query_slots_leased[of conn "ByComponentType componentType" s1]
      by (auto split: prod.splits sum.splits)
  qed
  show "leased (snd (updateContentSlot id' componentType viewId columnStart rowStart columnEnd rowEnd options s))
     = leased s"
    unfolding updateContentSlot_def
  proof (rule scoped_release)
    fix conn s1
    show "leased (snd (case query conn (UpdateSlot viewId componentType columnStart rowStart columnEnd rowEnd id') s1 of
         (Inl e, s2) \<Rightarrow> (Inl e, s2)
       | (Inr result, s2) \<Rightarrow>
           (let contentSlotChanged = (affectedRows result = 1) in
            case setOptionsForContentSlot conn id' options s2 of
              (Inl e, s3) \<Rightarrow> (Inl e, s3)
            | (Inr optionsChanged, s3) \<Rightarrow>
                (Inr (if contentSlotChanged \<or> optionsChanged then Some id' else None), s3)))) = leased s1"
      using query_leased[of conn "UpdateSlot viewId componentType columnStart rowStart columnEnd rowEnd id'" s1]
        setOptions_leased[of conn id' options]
      by (auto split: prod.splits sum.splits simp: Let_def) (metis snd_conv)+
  qed
  show "case createContentSlot_try componentType viewId columnStart rowStart columnEnd rowEnd options s of
      (None, r, s1) \<Rightarrow> leased s1 = leased s
    | (Some conn, r, s1) \<Rightarrow> leased s1 = conn # leased s"
  proof (cases "getConnection s")
    case (Pair r0 s1)
    show ?thesis
    proof (cases r0)
      case (Inl e)
      with Pair getConnection_fail[of s e s1] show ?thesis
        by (simp add: createContentSlot_try_def try_with_connection_def)
    next
      case (Inr conn)
      with Pair getConnection_ok[of s conn s1] have l: "leased s1 = conn # leased s" by simp
      with Pair Inr create_body[of conn s1] show ?thesis
        by (auto simp: createContentSlot_try_def try_with_connection_def split: prod.splits)
    qed
  qed
qed

theorem connection_always_released_witness:
  "fst (deleteOne 1 failing_store) = Inl (SqlError 1205 ''ER_LOCK_WAIT_TIMEOUT'') \<and>
   leased (snd (deleteOne 1 failing_store)) = leased failing_store \<and>
   fst (createContentSlot ''Banner'' 1 1 1 3 2 (Some []) failing_store)
     = Inl (Error (Some ''ER_LOCK_WAIT_TIMEOUT'')) \<and>
   leased (snd (createContentSlot ''Banner'' 1 1 1 3 2 (Some []) failing_store))
     = leased failing_store"
proof -
  have a: "fst (deleteOne 1 failing_store) = Inl (SqlError 1205 ''ER_LOCK_WAIT_TIMEOUT'')"
    by (simp add: failing_store_def run_defs op_defs)
  have b: "fst (createContentSlot ''Banner'' 1 1 1 3 2 (Some []) failing_store)
     = Inl (Error (Some ''ER_LOCK_WAIT_TIMEOUT''))"
    by (simp add: failing_store_def run_defs op_defs)
  from connection_always_released[where id'=1 and s=failing_store and componentType="''Banner''"
      and viewId=1 and columnStart=1 and rowStart=1 and columnEnd=3 and rowEnd=2 and options="Some []"]
    a b show ?thesis by simp
qed

section \<open>What an operation can throw\<close>

lemma send_driver: "send conn st s = (Some e, s') \<Longrightarrow> driver_exception e"
  unfolding send_def by (rule next_fault_driver)

lemma execute_driver: "execute st s = Inl e \<Longrightarrow> driver_exception e"
  by (cases st) (auto split: if_splits simp: Let_def)

lemma query_driver: "query conn st s = (Inl e, s') \<Longrightarrow> driver_exception e"
  unfolding query_def
  by (auto split: prod.splits option.splits sum.splits dest: send_driver execute_driver)

lemma query_slots_driver: "query_slots conn q s = (Inl e, s') \<Longrightarrow> driver_exception e"
  unfolding query_slots_def
  by (auto split: prod.splits option.splits dest: send_driver)

lemma query_options_driver: "query_options conn q s = (Inl e, s') \<Longrightarrow> driver_exception e"
  unfolding query_options_def
  by (auto split: prod.splits option.splits dest: send_driver)

lemma remove_missing_driver:
  "remove_missing conn i D keys b s = (Inl e, s') \<Longrightarrow> driver_exception e"
proof (induction keys arbitrary: b s)
  case Nil
  then show ?case by simp
next
  case (Cons key keys)
  show ?case
  proof (cases "hasOwnProperty D key")
    case True
    with Cons show ?thesis by simp
  next
    case False
    obtain r s1 where q: "query conn (DeleteOption i key) s = (r, s1)"
      by (cases "query conn (DeleteOption i key) s")
    show ?thesis
    proof (cases r)
      case (Inl x)
      with False q Cons.prems query_driver[of conn "DeleteOption i key" s x s1] show ?thesis by simp
    next
      case (Inr res)
      with False q Cons.prems Cons.IH[of True s1] show ?thesis by simp
    qed
  qed
qed

lemma write_entries_driver:
  "write_entries conn i ex entries b s = (Inl e, s') \<Longrightarrow> driver_exception e"
proof (induction entries arbitrary: b s)
  case Nil
  then show ?case by simp
next
  case (Cons p entries)
  obtain key v where p: "p = (key, v)" by (cases p)
  show ?case
  proof (cases "Map_has ex key")
    case True
    obtain r s1 where q: "query conn (UpdateOption v i key) s = (r, s1)"
      by (cases "query conn (UpdateOption v i key) s")
    show ?thesis
    proof (cases r)
      case (Inl x)
      with True q p Cons.prems query_driver[of conn "UpdateOption v i key" s x s1] show ?thesis by simp
    next
      case (Inr res)
      with True q p Cons.prems Cons.IH[of _ s1] show ?thesis by simp
    qed
  next
    case False
    obtain r s1 where q: "query conn (InsertOption i key v) s = (r, s1)"
      by (cases "query conn (InsertOption i key v) s")
    show ?thesis
    proof (cases r)
      case (Inl x)
      with False q p Cons.prems query_driver[of conn "InsertOption i key v" s x s1] show ?thesis by simp
    next
      case (Inr res)
      with False q p Cons.prems Cons.IH[of True s1] show ?thesis by simp
    qed
  qed
qed

lemma getOptionsForContentSlot_driver:
  "getOptionsForContentSlot conn i s = (Inl e, s') \<Longrightarrow> driver_exception e"
  unfolding getOptionsForContentSlot_def
  by (auto split: prod.splits sum.splits dest: query_options_driver)

lemma setOptions_driver:
  "setOptionsForContentSlot conn i options s = (Inl e, s') \<Longrightarrow> driver_exception e"
  unfolding setOptionsForContentSlot_def Let_def
  by (auto split: prod.splits sum.splits
      dest: getOptionsForContentSlot_driver remove_missing_driver write_entries_driver)

text \<open>The batch read.\<close>

lemma map_of_Map_set: "map_of (Map_set k v m) = (map_of m)(k \<mapsto> v)"
  by (induction m) auto

lemma fill_ok:
  "\<forall>r \<in> set rows. contentslot_id r \<in> fst ` set options \<Longrightarrow>
   \<exists>m. fill options rows = Inr m \<and> fst ` set m = fst ` set options"
proof (induction rows arbitrary: options)
  case Nil
  then show ?case by simp
next
  case (Cons r rows)
  from Cons.prems have "contentslot_id r \<in> fst ` set options" by simp
  then obtain a where a: "map_of options (contentslot_id r) = Some a"
    by (metis map_of_eq_None_iff not_Some_eq)
  let ?o = "Map_set (contentslot_id r) (Map_set (name r) (val r) a) options"
  have keys: "fst ` set ?o = fst ` set options"
    using \<open>contentslot_id r \<in> fst ` set options\<close> by (auto simp: Map_set_keys)
  with Cons.prems have "\<forall>r \<in> set rows. contentslot_id r \<in> fst ` set ?o" by simp
  from Cons.IH[OF this] keys a show ?case by simp
qed

lemma initial_maps_keys:
  "fst ` set (foldl (\<lambda>options id'. Map_set id' [] options) acc ids) = fst ` set acc \<union> set ids"
  by (induction ids arbitrary: acc) (auto simp: Map_set_keys)

lemma getOptionsForContentSlots_driver:
  "getOptionsForContentSlots conn ids s = (Inl e, s') \<Longrightarrow> driver_exception e"
proof -
  assume run: "getOptionsForContentSlots conn ids s = (Inl e, s')"
  obtain r s1 where q: "query_options conn (ForContentSlots ids) s = (r, s1)"
    by (cases "query_options conn (ForContentSlots ids) s")
  show ?thesis
  proof (cases r)
    case (Inl x)
    with q run query_options_driver[of conn "ForContentSlots ids" s x s1] show ?thesis
      by (simp add: getOptionsForContentSlots_def)
  next
    case (Inr rows)
    with q query_options_ok[of conn "ForContentSlots ids" s rows s1]
    have "\<forall>r \<in> set rows. contentslot_id r \<in> set ids" by simp
    then have "\<forall>r \<in> set rows. contentslot_id r \<in>
        fst ` set (foldl (\<lambda>options id'. Map_set id' [] options) [] ids)"
      by (simp add: initial_maps_keys)
    from fill_ok[OF this] Inr q run show ?thesis
      by (auto simp: getOptionsForContentSlots_def)
  qed
qed

lemma getOptionsForContentSlots_ok:
  assumes "getOptionsForContentSlots conn ids s = (Inr options, s')"
  shows "fst ` set options = set ids"
    and "contentslots s' = contentslots s"
    and "issued s' = issued s @ [(conn, SelectOptions (ForContentSlots ids))]"
proof -
  from assms obtain rows where
    q: "query_options conn (ForContentSlots ids) s = (Inr rows, s')" and
    f: "fill (foldl (\<lambda>options id'. Map_set id' [] options) [] ids) rows = Inr options"
    by (auto simp: getOptionsForContentSlots_def split: prod.splits sum.splits)
  note Q = query_options_ok[OF q]
  from Q have "\<forall>r \<in> set rows. contentslot_id r \<in>
      fst ` set (foldl (\<lambda>options id'. Map_set id' [] options) [] ids)"
    by (simp add: initial_maps_keys)
  from fill_ok[OF this] f show "fst ` set options = set ids"
    by (auto simp: initial_maps_keys)
  from Q show "contentslots s' = contentslots s" by simp
  from Q show "issued s' = issued s @ [(conn, SelectOptions (ForContentSlots ids))]" by simp
qed

lemma rowToObjectWithOptions_shape:
  "\<exists>opts. foldl (\<lambda>object (key, v). object\<lparr>obj_options := assign key v (obj_options object)\<rparr>) object m
     = object\<lparr>obj_options := opts\<rparr>"
proof (induction m arbitrary: object)
  case Nil
  have "object = object\<lparr>obj_options := obj_options object\<rparr>" by simp
  then show ?case by (metis foldl_Nil)
next
  case (Cons p m)
  obtain key v where p: "p = (key, v)" by (cases p)
  from Cons[of "object\<lparr>obj_options := assign key v (obj_options object)\<rparr>"]
  obtain opts where "foldl (\<lambda>object (key, v). object\<lparr>obj_options := assign key v (obj_options object)\<rparr>)
      (object\<lparr>obj_options := assign key v (obj_options object)\<rparr>) m =
      object\<lparr>obj_options := assign key v (obj_options object), obj_options := opts\<rparr>" by blast
  with p show ?case by auto
qed

lemma map_rows_ok:
  "set (map id_col rows) \<subseteq> fst ` set options \<Longrightarrow>
   \<exists>slots. map_rows (\<lambda>row. rowToObjectWithOptions row (map_of options (id_col row))) rows = Inr slots \<and>
     list_all2 (\<lambda>object row. \<exists>opts. object = (rowToObject row)\<lparr>obj_options := opts\<rparr>) slots rows"
proof (induction rows)
  case Nil
  then show ?case by simp
next
  case (Cons row rows)
  from Cons.prems have "id_col row \<in> fst ` set options" by simp
  then obtain m where m: "map_of options (id_col row) = Some m"
    by (metis map_of_eq_None_iff not_Some_eq)
  from rowToObjectWithOptions_shape[of "rowToObject row" m] obtain opts where
    "rowToObjectWithOptions row (Some m) = Inr ((rowToObject row)\<lparr>obj_options := opts\<rparr>)"
    by (auto simp: rowToObjectWithOptions_def)
  moreover from Cons have "\<exists>slots. map_rows (\<lambda>row. rowToObjectWithOptions row (map_of options (id_col row))) rows = Inr slots \<and>
     list_all2 (\<lambda>object row. \<exists>opts. object = (rowToObject row)\<lparr>obj_options := opts\<rparr>) slots rows"
    by simp
  ultimately show ?case using m by auto
qed

lemma scoped_fail:
  assumes "finally_release (try_with_connection body s) = (Inl e, s')"
    and "\<And>conn s1 s2. body conn s1 = (Inl e, s2) \<Longrightarrow> driver_exception e"
  shows "driver_exception e"
proof -
  obtain c r0 s2 where t: "try_with_connection body s = (c, r0, s2)"
    by (cases "try_with_connection body s") auto
  show ?thesis
  proof (cases c)
    case None
    with t try_block_fail[of body s r0 s2] assms(1) have "getConnection s = (Inl e, s2)"
      by (auto simp: finally_release_def)
    then show ?thesis by (simp add: getConnection_fail)
  next
    case (Some conn)
    with t try_block_ok[of body s conn r0 s2] obtain s1 where b: "body conn s1 = (r0, s2)" by auto
    from assms(1) t Some have "r0 = Inl e" by (simp add: finally_release_def)
    with b assms(2) show ?thesis by simp
  qed
qed

lemma byViewId_body_fail:
  assumes "(case query_slots conn (ByViewId viewId) s1 of
         (Inl e, s2) \<Rightarrow> (Inl e, s2)
       | (Inr rows, s2) \<Rightarrow>
           if length rows = 0 then (Inr [], s2)
           else
             (let contentSlotIds = map id_col rows in
              case getOptionsForContentSlots conn contentSlotIds s2 of
                (Inl e, s3) \<Rightarrow> (Inl e, s3)
              | (Inr options, s3) \<Rightarrow>
                  (map_rows (\<lambda>row. rowToObjectWithOptions row (map_of options (id_col row))) rows,
                   s3))) = (Inl e, s')"
  shows "driver_exception e"
proof -
  obtain r s2 where q: "query_slots conn (ByViewId viewId) s1 = (r, s2)"
    by (cases "query_slots conn (ByViewId viewId) s1")
  show ?thesis
  proof (cases r)
    case (Inl x)
    with q assms query_slots_driver[of conn "ByViewId viewId" s1 x s2] show ?thesis by simp
  next
    case (Inr rows)
    show ?thesis
    proof (cases "length rows = 0")
      case True
      with Inr q assms show ?thesis by simp
    next
      case False
      obtain r3 s3 where g: "getOptionsForContentSlots conn (map id_col rows) s2 = (r3, s3)"
        by (cases "getOptionsForContentSlots conn (map id_col rows) s2")
      show ?thesis
      proof (cases r3)
        case (Inl x)
        with g getOptionsForContentSlots_driver[of conn "map id_col rows" s2 x s3]
          Inr q False assms show ?thesis by (simp add: Let_def)
      next
        case r3: (Inr options)
        with g getOptionsForContentSlots_ok(1)[of conn "map id_col rows" s2 options s3]
        have "set (map id_col rows) \<subseteq> fst ` set options" by simp
        from map_rows_ok[OF this] r3 g Inr q False assms show ?thesis
          by (auto simp: Let_def)
      qed
    qed
  qed
qed

lemma create_body_fail:
  assumes "(case query conn (InsertSlot viewId componentType columnStart rowStart columnEnd rowEnd) s1 of
         (Inl e, s2) \<Rightarrow> (Inl e, s2)
       | (Inr insertResult, s2) \<Rightarrow>
           (let contentSlotId = insertId insertResult in
            case setOptionsForContentSlot conn contentSlotId options s2 of
              (Inl e, s3) \<Rightarrow> (Inl e, s3)
            | (Inr changed, s3) \<Rightarrow> (Inr contentSlotId, s3))) = (Inl e, s')"
  shows "driver_exception e"
  using assms
  by (auto simp: Let_def split: prod.splits sum.splits dest: query_driver setOptions_driver)

lemma update_body_fail:
  assumes "(case query conn (UpdateSlot viewId componentType columnStart rowStart columnEnd rowEnd id') s1 of
         (Inl e, s2) \<Rightarrow> (Inl e, s2)
       | (Inr result, s2) \<Rightarrow>
           (let contentSlotChanged = (affectedRows result = 1) in
            case setOptionsForContentSlot conn id' options s2 of
              (Inl e, s3) \<Rightarrow> (Inl e, s3)
            | (Inr optionsChanged, s3) \<Rightarrow>
                (Inr (if contentSlotChanged \<or> optionsChanged then Some id' else None), s3)))
         = (Inl e, s')"
  shows "driver_exception e"
  using assms
  by (auto simp: Let_def split: prod.splits sum.splits dest: query_driver setOptions_driver)

lemma create_try_fail:
  assumes "createContentSlot_try componentType viewId columnStart rowStart columnEnd rowEnd options s
            = (c, Inl e, s')"
  shows "driver_exception e"
proof (cases c)
  case None
  with assms try_block_fail[of _ s "Inl e" s'] have "getConnection s = (Inl e, s')"
    unfolding createContentSlot_try_def by auto
  then show ?thesis by (simp add: getConnection_fail)
next
  case (Some conn)
  with assms show ?thesis
    unfolding createContentSlot_try_def
    by (auto dest!: try_block_ok dest: create_body_fail)
qed

lemma driver_typed:
  "driver_exception e \<Longrightarrow>
   typed_failure (if errno e = Some 1062 then DuplicateEntryError (code e) else Error (code e))"
  by (cases e) auto

lemma outcome_cases:
  "(\<And>e. fst x = Inl e \<Longrightarrow> P e) \<Longrightarrow> (case fst x of Inl e \<Rightarrow> P e | Inr r \<Rightarrow> True)"
  by (cases "fst x") auto

lemma query_InsertSlot_ok:
  "query conn (InsertSlot viewId componentType columnStart rowStart columnEnd rowEnd) s = (Inr r, s') \<Longrightarrow>
     insertId r = auto_increment s \<and>
     contentslots s' = contentslots s @
       [slot_of (auto_increment s) viewId componentType columnStart rowStart columnEnd rowEnd] \<and>
     contentslot_options s' = contentslot_options s \<and>
     issued s' = issued s @
       [(conn, Modify (InsertSlot viewId componentType columnStart rowStart columnEnd rowEnd))]"
  unfolding query_def
  by (auto split: prod.splits option.splits dest!: send_fields)

lemma create_ok:
  assumes "createContentSlot componentType viewId columnStart rowStart columnEnd rowEnd options s
            = (Inr newId, s')"
  obtains s1 s2 s3 r changed where
    "getConnection s = (Inr (next_conn s), s1)"
    "query (next_conn s) (InsertSlot viewId componentType columnStart rowStart columnEnd rowEnd) s1
       = (Inr r, s2)"
    "newId = insertId r"
    "setOptionsForContentSlot (next_conn s) newId options s2 = (Inr changed, s3)"
    "s' = release (next_conn s) s3"
proof -
  let ?body = "\<lambda>conn s1.
       case query conn (InsertSlot viewId componentType columnStart rowStart columnEnd rowEnd) s1 of
         (Inl e, s2) \<Rightarrow> (Inl e, s2)
       | (Inr insertResult, s2) \<Rightarrow>
           (let contentSlotId = insertId insertResult in
            case setOptionsForContentSlot conn contentSlotId options s2 of
              (Inl e, s3) \<Rightarrow> (Inl e, s3)
            | (Inr changed, s3) \<Rightarrow> (Inr contentSlotId, s3))"
  obtain c r0 sx where t: "try_with_connection ?body s = (c, r0, sx)"
    by (cases "try_with_connection ?body s") auto
  from assms t have ne: "r0 = Inr newId"
    by (cases r0; cases c)
       (simp_all add: createContentSlot_def createContentSlot_try_def catch_clause_def finally_release_def)
  with assms t have "finally_release (try_with_connection ?body s) = (Inr newId, s')"
    by (cases c)
       (simp_all add: createContentSlot_def createContentSlot_try_def catch_clause_def finally_release_def)
  then obtain s1 s3 where
    g: "getConnection s = (Inr (next_conn s), s1)" and
    b: "?body (next_conn s) s1 = (Inr newId, s3)" and
    s': "s' = release (next_conn s) s3"
    by (rule scoped_ok)
  from b obtain r s2 changed where
    "query (next_conn s) (InsertSlot viewId componentType columnStart rowStart columnEnd rowEnd) s1
       = (Inr r, s2)"
    "newId = insertId r"
    "setOptionsForContentSlot (next_conn s) newId options s2 = (Inr changed, s3)"
    by (auto simp: Let_def split: prod.splits sum.splits)
  with g s' that show ?thesis by blast
qed

section \<open>Reading by view\<close>

text \<open>
  C5. For every view id, when \<^verbatim>\<open>getContentSlotsByViewId\<close> completes: if the view has
  no slot rows the result is the empty sequence and the only statement issued is the
  query on the slot table, so no options query is sent; if it has \<open>N \<ge> 1\<close> rows, exactly
  one options query follows, for the identifiers of all \<open>N\<close> rows, and the result has one
  aggregate per row, each the row's projection with an options object. The call never
  fails with a \<^verbatim>\<open>TypeError\<close>, so \<^verbatim>\<open>options.get(row.id)\<close> is never \<^verbatim>\<open>undefined\<close>: the
  batch read \<^verbatim>\<open>getOptionsForContentSlots\<close> returns a map (possibly empty) for every
  requested identifier, and never fails with a \<^verbatim>\<open>TypeError\<close> itself.
\<close>

theorem byViewId_batch:
  "(getContentSlotsByViewId viewId s = (Inr slots, s') \<longrightarrow>
      (if filter (\<lambda>r. view_id r = viewId) (contentslots s) = []
       then slots = [] \<and> issued s' = issued s @ [(next_conn s, SelectSlots (ByViewId viewId))]
       else issued s' = issued s @
              [(next_conn s, SelectSlots (ByViewId viewId)),
               (next_conn s, SelectOptions (ForContentSlots
                  (map id_col (filter (\<lambda>r. view_id r = viewId) (contentslots s)))))] \<and>
            list_all2 (\<lambda>object row. \<exists>opts. object = (rowToObject row)\<lparr>obj_options := opts\<rparr>)
              slots (filter (\<lambda>r. view_id r = viewId) (contentslots s)))) \<and>
   fst (getContentSlotsByViewId viewId s) \<noteq> Inl TypeError \<and>
   (getOptionsForContentSlots conn ids s = (Inr options, s1) \<longrightarrow>
      (\<forall>i \<in> set ids. map_of options i \<noteq> None)) \<and>
   fst (getOptionsForContentSlots conn ids s) \<noteq> Inl TypeError"
proof (intro conjI impI)
  assume run: "getContentSlotsByViewId viewId s = (Inr slots, s')"
  let ?c = "next_conn s"
  let ?rows = "filter (\<lambda>r. view_id r = viewId) (contentslots s)"
  from run obtain s1 s2 where
    g: "getConnection s = (Inr ?c, s1)" and
    b: "(case query_slots ?c (ByViewId viewId) s1 of
         (Inl e, s2) \<Rightarrow> (Inl e, s2)
       | (Inr rows, s2) \<Rightarrow>
           if length rows = 0 then (Inr [], s2)
           else
             (let contentSlotIds = map id_col rows in
              case getOptionsForContentSlots ?c contentSlotIds s2 of
                (Inl e, s3) \<Rightarrow> (Inl e, s3)
              | (Inr options, s3) \<Rightarrow>
                  (map_rows (\<lambda>row. rowToObjectWithOptions row (map_of options (id_col row))) rows,
                   s3))) = (Inr slots, s2)" and
    s': "s' = release ?c s2"
    unfolding getContentSlotsByViewId_def by (rule scoped_ok)
  note G = getConnection_ok[OF g]
  from b obtain rows sq where q: "query_slots ?c (ByViewId viewId) s1 = (Inr rows, sq)"
    by (auto split: prod.splits sum.splits)
  note Q = query_slots_ok[OF q]
  from Q G have rows: "rows = ?rows" by simp
  show "if ?rows = []
       then slots = [] \<and> issued s' = issued s @ [(next_conn s, SelectSlots (ByViewId viewId))]
       else issued s' = issued s @
              [(next_conn s, SelectSlots (ByViewId viewId)),
               (next_conn s, SelectOptions (ForContentSlots (map id_col ?rows)))] \<and>
            list_all2 (\<lambda>object row. \<exists>opts. object = (rowToObject row)\<lparr>obj_options := opts\<rparr>)
              slots ?rows"
  proof (cases "rows = []")
    case True
    with b q have "slots = []" "s2 = sq" by simp_all
    with True rows Q G s' show ?thesis by (simp add: release_fields)
  next
    case False
    with b q obtain options where
      o: "getOptionsForContentSlots ?c (map id_col rows) sq = (Inr options, s2)" and
      m: "map_rows (\<lambda>row. rowToObjectWithOptions row (map_of options (id_col row))) rows = Inr slots"
      by (auto simp: Let_def split: prod.splits sum.splits)
    note O = getOptionsForContentSlots_ok[OF o]
    from O(1) have "set (map id_col rows) \<subseteq> fst ` set options" by simp
    from map_rows_ok[OF this] m
    have l: "list_all2 (\<lambda>object row. \<exists>opts. object = (rowToObject row)\<lparr>obj_options := opts\<rparr>) slots rows"
      by simp
    have "issued s' = issued s @
              [(next_conn s, SelectSlots (ByViewId viewId)),
               (next_conn s, SelectOptions (ForContentSlots (map id_col rows)))]"
      using O(3) Q G s' by (simp add: release_fields)
    with l False show ?thesis unfolding rows by simp
  qed
next
  show "fst (getContentSlotsByViewId viewId s) \<noteq> Inl TypeError"
  proof
    assume "fst (getContentSlotsByViewId viewId s) = Inl TypeError"
    then have "getContentSlotsByViewId viewId s = (Inl TypeError, snd (getContentSlotsByViewId viewId s))"
      by (metis prod.collapse)
    then have "driver_exception TypeError"
      unfolding getContentSlotsByViewId_def
      by (rule scoped_fail) (rule byViewId_body_fail)
    then show False by simp
  qed
next
  assume "getOptionsForContentSlots conn ids s = (Inr options, s1)"
  from getOptionsForContentSlots_ok(1)[OF this]
  show "\<forall>i \<in> set ids. map_of options i \<noteq> None"
    by (simp add: map_of_eq_None_iff)
next
  show "fst (getOptionsForContentSlots conn ids s) \<noteq> Inl TypeError"
  proof
    assume "fst (getOptionsForContentSlots conn ids s) = Inl TypeError"
    then have "getOptionsForContentSlots conn ids s = (Inl TypeError, snd (getOptionsForContentSlots conn ids s))"
      by (metis prod.collapse)
    then have "driver_exception TypeError" by (rule getOptionsForContentSlots_driver)
    then show False by simp
  qed
qed

theorem byViewId_batch_witness:
  "fst (getContentSlotsByViewId 7 demo_store) = Inr [] \<and>
   issued (snd (getContentSlotsByViewId 7 demo_store)) = [(0, SelectSlots (ByViewId 7))] \<and>
   fst (getContentSlotsByViewId 1 demo_store) =
     Inr [(rowToObject (slot_of 1 1 ''Banner'' 1 1 3 2))
            \<lparr>obj_options := [''color'' \<mapsto> ''red'', ''old'' \<mapsto> ''x'']\<rparr>,
          (rowToObject (slot_of 2 1 ''Clock'' 3 1 5 2))
            \<lparr>obj_options := [''color'' \<mapsto> ''green'']\<rparr>,
          rowToObject (slot_of 3 1 ''Text'' 1 2 5 3)] \<and>
   issued (snd (getContentSlotsByViewId 1 demo_store)) =
     [(0, SelectSlots (ByViewId 1)), (0, SelectOptions (ForContentSlots [1, 2, 3]))] \<and>
   fst (getOptionsForContentSlots 0 [1, 2, 3] demo_store) =
     Inr [(1, [(''color'', ''red''), (''old'', ''x'')]), (2, [(''color'', ''green'')]), (3, [])]"
proof -
  let ?a = "getContentSlotsByViewId 7 demo_store" and ?b = "getContentSlotsByViewId 1 demo_store"
  let ?slots = "[(rowToObject (slot_of 1 1 ''Banner'' 1 1 3 2))
            \<lparr>obj_options := [''color'' \<mapsto> ''red'', ''old'' \<mapsto> ''x'']\<rparr>,
          (rowToObject (slot_of 2 1 ''Clock'' 3 1 5 2))
            \<lparr>obj_options := [''color'' \<mapsto> ''green'']\<rparr>,
          rowToObject (slot_of 3 1 ''Text'' 1 2 5 3)]"
  have fa: "fst ?a = Inr []" by (simp add: run_defs op_defs)
  then have ra: "?a = (Inr [], snd ?a)" by (metis prod.collapse)
  have fb: "fst ?b = Inr ?slots" by (simp add: run_defs op_defs)
  then have rb: "?b = (Inr ?slots, snd ?b)" by (metis prod.collapse)
  have none: "filter (\<lambda>r. view_id r = 7) (contentslots demo_store) = []"
    by (simp add: demo_store_def slot_of_def)
  have three: "filter (\<lambda>r. view_id r = 1) (contentslots demo_store) = contentslots demo_store"
    by (simp add: demo_store_def slot_of_def)
  have ids: "map id_col (contentslots demo_store) = [1, 2, 3]"
    by (simp add: demo_store_def slot_of_def)
  have ne: "contentslots demo_store \<noteq> []" by (simp add: demo_store_def)
  have st: "next_conn demo_store = 0" "issued demo_store = []" by (simp_all add: demo_store_def)
  from byViewId_batch[of 7 demo_store "[]" "snd ?a"] ra none st
  have ia: "issued (snd ?a) = [(0, SelectSlots (ByViewId 7))]" by simp
  from byViewId_batch[of 1 demo_store ?slots "snd ?b"] rb three ids ne st
  have ib: "issued (snd ?b) = [(0, SelectSlots (ByViewId 1)), (0, SelectOptions (ForContentSlots [1, 2, 3]))]"
    by simp
  have batch: "fst (getOptionsForContentSlots 0 [1, 2, 3] demo_store) =
     Inr [(1, [(''color'', ''red''), (''old'', ''x'')]), (2, [(''color'', ''green'')]), (3, [])]"
    by (simp add: run_defs op_defs)
  from fa ia fb ib batch show ?thesis by simp
qed

section \<open>Creating a slot\<close>

text \<open>
  C4. Whenever the try block of \<^verbatim>\<open>createContentSlot\<close> fails, it fails with an
  exception of the storage driver, with its \<^verbatim>\<open>errno\<close> and \<^verbatim>\<open>code\<close>; the operation then
  fails with \<^verbatim>\<open>DuplicateEntryError(code)\<close> when \<^verbatim>\<open>errno\<close> is 1062 and with
  \<^verbatim>\<open>Error(code)\<close> for every other \<^verbatim>\<open>errno\<close>. Whenever the try block returns an
  identifier, the operation returns it. On success with an options object \<open>D\<close>, the
  identifier is the one the store assigned to the inserted row, the row is in the slot
  table, the options persisted for it are exactly \<open>D\<close>, and the statements issued are the
  insert followed by the statements of the synchronization, all on the one connection
  the operation acquired.
\<close>

theorem createContentSlot_outcomes:
  "(createContentSlot_try componentType viewId columnStart rowStart columnEnd rowEnd options s
      = (conn, Inl e, s1) \<longrightarrow>
      (\<exists>n c. e = SqlError n c \<and>
         fst (createContentSlot componentType viewId columnStart rowStart columnEnd rowEnd options s) =
           Inl (if n = 1062 then DuplicateEntryError (Some c) else Error (Some c)))) \<and>
   (createContentSlot_try componentType viewId columnStart rowStart columnEnd rowEnd options s
      = (conn, Inr newId, s1) \<longrightarrow>
      createContentSlot componentType viewId columnStart rowStart columnEnd rowEnd options s =
        (Inr newId, release (next_conn s) s1)) \<and>
   (createContentSlot componentType viewId columnStart rowStart columnEnd rowEnd (Some D) s
      = (Inr newId, s') \<and> distinct (map fst D) \<longrightarrow>
      newId = auto_increment s \<and>
      contentslots s' = contentslots s @
        [slot_of newId viewId componentType columnStart rowStart columnEnd rowEnd] \<and>
      set (stored newId s') = set D \<and>
      (\<exists>ex. fst ` set ex = fst ` set (stored newId s) \<and>
         issued s' = issued s @
           (next_conn s, Modify (InsertSlot viewId componentType columnStart rowStart columnEnd rowEnd)) #
           sync_plan (next_conn s) newId ex D \<and>
         (\<forall>st \<in> set (sync_plan (next_conn s) newId ex D). fst st = next_conn s)))"
proof (intro conjI impI)
  assume t: "createContentSlot_try componentType viewId columnStart rowStart columnEnd rowEnd options s
      = (conn, Inl e, s1)"
  from create_try_fail[OF t] obtain n c where e: "e = SqlError n c" by (cases e) auto
  from t e have "fst (createContentSlot componentType viewId columnStart rowStart columnEnd rowEnd options s) =
           Inl (if n = 1062 then DuplicateEntryError (Some c) else Error (Some c))"
    by (cases conn) (simp_all add: createContentSlot_def catch_clause_def finally_release_def)
  with e show "\<exists>n c. e = SqlError n c \<and>
         fst (createContentSlot componentType viewId columnStart rowStart columnEnd rowEnd options s) =
           Inl (if n = 1062 then DuplicateEntryError (Some c) else Error (Some c))" by blast
next
  assume t: "createContentSlot_try componentType viewId columnStart rowStart columnEnd rowEnd options s
      = (conn, Inr newId, s1)"
  then obtain c where c: "conn = Some c"
    unfolding createContentSlot_try_def by (cases conn) (auto dest: try_block_fail)
  with t have "c = next_conn s"
    unfolding createContentSlot_try_def by (auto dest!: try_block_ok getConnection_ok)
  with t c show "createContentSlot componentType viewId columnStart rowStart columnEnd rowEnd options s =
        (Inr newId, release (next_conn s) s1)"
    by (simp add: createContentSlot_def catch_clause_def finally_release_def)
next
  assume a: "createContentSlot componentType viewId columnStart rowStart columnEnd rowEnd (Some D) s
      = (Inr newId, s') \<and> distinct (map fst D)"
  then have d: "distinct (map fst D)" by simp
  let ?c = "next_conn s"
  from a obtain sa sb sc r changed where
    g: "getConnection s = (Inr ?c, sa)" and
    q: "query ?c (InsertSlot viewId componentType columnStart rowStart columnEnd rowEnd) sa = (Inr r, sb)" and
    n: "newId = insertId r" and
    o: "setOptionsForContentSlot ?c newId (Some D) sb = (Inr changed, sc)" and
    s': "s' = release ?c sc"
    by (auto elim: create_ok)
  note G = getConnection_ok[OF g]
  note Q = query_InsertSlot_ok[OF q]
  from n Q G show nid: "newId = auto_increment s" by simp
  from sync_frame(1)[OF d o] Q G s' nid
  show "contentslots s' = contentslots s @
        [slot_of newId viewId componentType columnStart rowStart columnEnd rowEnd]"
    by (simp add: release_fields)
  from sync_stored[OF d o] s' show "set (stored newId s') = set D"
    by (simp add: stored_release)
  have sb: "stored newId sb = stored newId s"
    using Q G by (simp add: stored_def)
  from sync_frame(3)[OF d o] obtain ex where
    ex: "fst ` set ex = fst ` set (stored newId sb)" and
    iss: "issued sc = issued sb @ sync_plan ?c newId ex D" by blast
  from iss Q G s' have "issued s' = issued s @
           (?c, Modify (InsertSlot viewId componentType columnStart rowStart columnEnd rowEnd)) #
           sync_plan ?c newId ex D"
    by (simp add: release_fields)
  moreover have "\<forall>st \<in> set (sync_plan ?c newId ex D). fst st = ?c"
    by (simp add: sync_plan_conn)
  ultimately show "\<exists>ex. fst ` set ex = fst ` set (stored newId s) \<and>
         issued s' = issued s @
           (?c, Modify (InsertSlot viewId componentType columnStart rowStart columnEnd rowEnd)) #
           sync_plan ?c newId ex D \<and>
         (\<forall>st \<in> set (sync_plan ?c newId ex D). fst st = ?c)"
    using ex sb by auto
qed

theorem createContentSlot_outcomes_witness:
  "fst (createContentSlot ''Banner'' 1 1 1 3 2 (Some [(''color'', ''red'')]) duplicate_store)
     = Inl (DuplicateEntryError (Some ''ER_DUP_ENTRY'')) \<and>
   fst (createContentSlot ''Banner'' 1 1 1 3 2 (Some [(''color'', ''red'')]) failing_store)
     = Inl (Error (Some ''ER_LOCK_WAIT_TIMEOUT'')) \<and>
   fst (createContentSlot ''Banner'' 1 1 1 3 2 (Some [(''color'', ''red'')]) demo_store) = Inr 4 \<and>
   distinct (map fst [(''color'', ''red'')]) \<and>
   auto_increment demo_store = 4 \<and>
   set (stored 4 (snd (createContentSlot ''Banner'' 1 1 1 3 2 (Some [(''color'', ''red'')]) demo_store)))
     = set [(''color'', ''red'')]"
proof -
  let ?D = "[(''color'', ''red'')]"
  let ?a = "createContentSlot ''Banner'' 1 1 1 3 2 (Some ?D) demo_store"
  let ?t = "createContentSlot_try ''Banner'' 1 1 1 3 2 (Some ?D) duplicate_store"
  let ?u = "createContentSlot_try ''Banner'' 1 1 1 3 2 (Some ?D) failing_store"
  have "fst (snd ?t) = Inl (SqlError 1062 ''ER_DUP_ENTRY'')"
    by (simp add: duplicate_store_def run_defs op_defs)
  then have t: "?t = (fst ?t, Inl (SqlError 1062 ''ER_DUP_ENTRY''), snd (snd ?t))"
    by (metis prod.collapse)
  from createContentSlot_outcomes[where componentType="''Banner''" and viewId=1 and columnStart=1
      and rowStart=1 and columnEnd=3 and rowEnd=2 and options="Some ?D" and s=duplicate_store
      and conn="fst ?t" and e="SqlError 1062 ''ER_DUP_ENTRY''" and ?s1.0="snd (snd ?t)"] t
  have dup: "fst (createContentSlot ''Banner'' 1 1 1 3 2 (Some ?D) duplicate_store)
     = Inl (DuplicateEntryError (Some ''ER_DUP_ENTRY''))"
    by auto
  have "fst (snd ?u) = Inl (SqlError 1205 ''ER_LOCK_WAIT_TIMEOUT'')"
    by (simp add: failing_store_def run_defs op_defs)
  then have u: "?u = (fst ?u, Inl (SqlError 1205 ''ER_LOCK_WAIT_TIMEOUT''), snd (snd ?u))"
    by (metis prod.collapse)
  from createContentSlot_outcomes[where componentType="''Banner''" and viewId=1 and columnStart=1
      and rowStart=1 and columnEnd=3 and rowEnd=2 and options="Some ?D" and s=failing_store
      and conn="fst ?u" and e="SqlError 1205 ''ER_LOCK_WAIT_TIMEOUT''" and ?s1.0="snd (snd ?u)"] u
  have other: "fst (createContentSlot ''Banner'' 1 1 1 3 2 (Some ?D) failing_store)
     = Inl (Error (Some ''ER_LOCK_WAIT_TIMEOUT''))"
    by auto
  have fa: "fst ?a = Inr 4" by (simp add: run_defs op_defs)
  then have ra: "?a = (Inr 4, snd ?a)" by (metis prod.collapse)
  have d: "distinct (map fst ?D)" by simp
  have ai: "auto_increment demo_store = 4" by (simp add: demo_store_def)
  from createContentSlot_outcomes[where componentType="''Banner''" and viewId=1 and columnStart=1
      and rowStart=1 and columnEnd=3 and rowEnd=2 and D="?D" and s=demo_store and newId=4
      and s'="snd ?a"] ra d
  have "set (stored 4 (snd ?a)) = set ?D" by blast
  with dup other fa d ai show ?thesis by simp
qed

section \<open>Updating a slot\<close>

lemma query_UpdateSlot_ok:
  "query conn (UpdateSlot viewId componentType columnStart rowStart columnEnd rowEnd i) s = (Inr r, s') \<Longrightarrow>
     affectedRows r = length (filter (\<lambda>row. id_col row = i \<and>
        row \<noteq> slot_of i viewId componentType columnStart rowStart columnEnd rowEnd) (contentslots s)) \<and>
     contentslots s' = map (\<lambda>row. if id_col row = i
        then slot_of i viewId componentType columnStart rowStart columnEnd rowEnd else row) (contentslots s) \<and>
     contentslot_options s' = contentslot_options s \<and>
     issued s' = issued s @
       [(conn, Modify (UpdateSlot viewId componentType columnStart rowStart columnEnd rowEnd i))]"
  unfolding query_def
  by (auto simp: Let_def split: prod.splits option.splits dest!: send_fields)

lemma update_ok:
  assumes "updateContentSlot id' componentType viewId columnStart rowStart columnEnd rowEnd options s
            = (Inr r, s')"
  obtains s1 s2 s3 res changed where
    "getConnection s = (Inr (next_conn s), s1)"
    "query (next_conn s) (UpdateSlot viewId componentType columnStart rowStart columnEnd rowEnd id') s1
       = (Inr res, s2)"
    "setOptionsForContentSlot (next_conn s) id' options s2 = (Inr changed, s3)"
    "r = (if affectedRows res = 1 \<or> changed then Some id' else None)"
    "s' = release (next_conn s) s3"
proof -
  let ?body = "\<lambda>conn s1.
       case query conn (UpdateSlot viewId componentType columnStart rowStart columnEnd rowEnd id') s1 of
         (Inl e, s2) \<Rightarrow> (Inl e, s2)
       | (Inr result, s2) \<Rightarrow>
           (let contentSlotChanged = (affectedRows result = 1) in
            case setOptionsForContentSlot conn id' options s2 of
              (Inl e, s3) \<Rightarrow> (Inl e, s3)
            | (Inr optionsChanged, s3) \<Rightarrow>
                (Inr (if contentSlotChanged \<or> optionsChanged then Some id' else None), s3))"
  from assms have "finally_release (try_with_connection ?body s) = (Inr r, s')"
    by (simp add: updateContentSlot_def)
  then obtain s1 s3 where
    g: "getConnection s = (Inr (next_conn s), s1)" and
    b: "?body (next_conn s) s1 = (Inr r, s3)" and
    s': "s' = release (next_conn s) s3"
    by (rule scoped_ok)
  from b obtain res s2 changed where
    "query (next_conn s) (UpdateSlot viewId componentType columnStart rowStart columnEnd rowEnd id') s1
       = (Inr res, s2)"
    "setOptionsForContentSlot (next_conn s) id' options s2 = (Inr changed, s3)"
    "r = (if affectedRows res = 1 \<or> changed then Some id' else None)"
    by (auto simp: Let_def split: prod.splits sum.splits)
  with g s' that show ?thesis by blast
qed

lemma update_result:
  assumes pk: "distinct (map id_col (contentslots s))"
    and uk: "distinct (map fst (stored id' s))"
    and d: "distinct (map fst D)"
    and run: "updateContentSlot id' componentType viewId columnStart rowStart columnEnd rowEnd (Some D) s
              = (Inr r, s')"
  shows "r = (if (\<exists>row \<in> set (contentslots s). id_col row = id' \<and>
                    row \<noteq> slot_of id' viewId componentType columnStart rowStart columnEnd rowEnd) \<or>
                 map_of (stored id' s) \<noteq> map_of D
              then Some id' else None)"
    and "contentslots s' = map (\<lambda>row. if id_col row = id'
          then slot_of id' viewId componentType columnStart rowStart columnEnd rowEnd else row) (contentslots s)"
    and "set (stored id' s') = set D"
    and "map_of (stored id' s') = map_of D"
    and "distinct (map fst (stored id' s'))"
    and "issued s' = issued s @
           (next_conn s, Modify (UpdateSlot viewId componentType columnStart rowStart columnEnd rowEnd id')) #
           sync_plan (next_conn s) id' (stored id' s) D"
proof -
  let ?c = "next_conn s"
  let ?new = "slot_of id' viewId componentType columnStart rowStart columnEnd rowEnd"
  from run obtain s1 s2 s3 res changed where
    g: "getConnection s = (Inr ?c, s1)" and
    q: "query ?c (UpdateSlot viewId componentType columnStart rowStart columnEnd rowEnd id') s1 = (Inr res, s2)" and
    o: "setOptionsForContentSlot ?c id' (Some D) s2 = (Inr changed, s3)" and
    r: "r = (if affectedRows res = 1 \<or> changed then Some id' else None)" and
    s': "s' = release ?c s3"
    by (rule update_ok)
  note G = getConnection_ok[OF g]
  note Q = query_UpdateSlot_ok[OF q]
  have st2: "stored id' s2 = stored id' s" using Q G by (simp add: stored_def)
  with uk have uk2: "distinct (map fst (stored id' s2))" by simp
  note C = sync_changed[OF uk2 d o]
  from Q G have "affectedRows res = length (filter (\<lambda>row. id_col row = id' \<and> row \<noteq> ?new) (contentslots s))"
    by simp
  with unique_match[OF pk, of id' "\<lambda>row. row \<noteq> ?new"]
  have aff: "(affectedRows res = 1) = (\<exists>row \<in> set (contentslots s). id_col row = id' \<and> row \<noteq> ?new)"
    by simp
  show "r = (if (\<exists>row \<in> set (contentslots s). id_col row = id' \<and> row \<noteq> ?new) \<or>
                 map_of (stored id' s) \<noteq> map_of D
              then Some id' else None)"
    unfolding r aff C(1) st2 ..
  from sync_frame(1)[OF d o] Q G s'
  show "contentslots s' = map (\<lambda>row. if id_col row = id' then ?new else row) (contentslots s)"
    by (simp add: release_fields)
  from sync_stored[OF d o] s' show "set (stored id' s') = set D" "map_of (stored id' s') = map_of D"
    by (simp_all add: stored_release)
  from C(2) s' show "distinct (map fst (stored id' s'))" by (simp add: stored_release)
  from C(3) Q G s' st2 show "issued s' = issued s @
           (?c, Modify (UpdateSlot viewId componentType columnStart rowStart columnEnd rowEnd id')) #
           sync_plan ?c id' (stored id' s) D"
    by (simp add: release_fields)
qed

text \<open>With no storage failure pending, a synchronization and an update run to their end.\<close>

lemma execute_faults: "execute st s = Inr (r, s') \<Longrightarrow> faults s' = faults s"
  by (cases st) (auto split: if_splits simp: Let_def)

lemma query_progress:
  assumes "faults s = []"
    and "\<And>i k v. st = InsertOption i k v \<Longrightarrow>
           i \<in> id_col ` set (contentslots s) \<and> \<not> list_ex (matches i k) (contentslot_options s)"
  shows "\<exists>r s'. query conn st s = (Inr r, s') \<and> faults s' = []"
  using assms
  by (cases st) (simp_all add: query_def send_def next_fault_def Let_def)

lemma query_options_progress:
  "faults s = [] \<Longrightarrow> \<exists>rows s'. query_options conn q s = (Inr rows, s') \<and> faults s' = []"
  by (simp add: query_options_def send_def next_fault_def)

lemma remove_missing_progress:
  "faults s = [] \<Longrightarrow> \<exists>b' s'. remove_missing conn i D keys b s = (Inr b', s') \<and> faults s' = []"
proof (induction keys arbitrary: b s)
  case Nil
  then show ?case by simp
next
  case (Cons key keys)
  show ?case
  proof (cases "hasOwnProperty D key")
    case True
    with Cons show ?thesis by simp
  next
    case False
    from query_progress[OF Cons.prems, of "DeleteOption i key" conn] obtain r s1 where
      q: "query conn (DeleteOption i key) s = (Inr r, s1)" and f: "faults s1 = []" by auto
    from Cons.IH[OF f, of True] q False show ?thesis by simp
  qed
qed

lemma stored_key_iff:
  "list_ex (matches i k) (contentslot_options s) \<longleftrightarrow> k \<in> fst ` set (stored i s)"
  by (auto simp: stored_def matches_def list_ex_iff image_iff)

lemma write_entries_progress:
  "faults s = [] \<Longrightarrow> distinct (map fst entries) \<Longrightarrow>
   (\<And>p. p \<in> set entries \<Longrightarrow> \<not> Map_has ex (fst p) \<Longrightarrow>
      fst p \<notin> fst ` set (stored i s) \<and> i \<in> id_col ` set (contentslots s)) \<Longrightarrow>
   \<exists>b' s'. write_entries conn i ex entries b s = (Inr b', s') \<and> faults s' = []"
proof (induction entries arbitrary: b s)
  case Nil
  then show ?case by simp
next
  case (Cons e entries)
  obtain key v where e: "e = (key, v)" by (cases e)
  from Cons.prems(2) e have dist: "distinct (map fst entries)" and fresh: "key \<notin> fst ` set entries"
    by auto
  show ?case
  proof (cases "Map_has ex key")
    case True
    from query_progress[OF Cons.prems(1), of "UpdateOption v i key" conn] obtain r s1 where
      q: "query conn (UpdateOption v i key) s = (Inr r, s1)" and f: "faults s1 = []" by auto
    from query_UpdateOption_ok[OF q]
    have "stored i s1 = map (\<lambda>p. (fst p, if fst p = key then v else snd p)) (stored i s)"
      and slots: "contentslots s1 = contentslots s"
      by (simp_all add: stored_update)
    then have names: "fst ` set (stored i s1) = fst ` set (stored i s)"
      by (simp add: image_image)
    have "\<exists>b' s'. write_entries conn i ex entries (if affectedRows r = 1 then True else b) s1
            = (Inr b', s') \<and> faults s' = []"
      using f dist
    proof (rule Cons.IH)
      fix p assume "p \<in> set entries" "\<not> Map_has ex (fst p)"
      with Cons.prems(3)[of p] names slots
      show "fst p \<notin> fst ` set (stored i s1) \<and> i \<in> id_col ` set (contentslots s1)" by simp
    qed
    with True q e show ?thesis by simp
  next
    case False
    with Cons.prems(3)[of e] e have "key \<notin> fst ` set (stored i s)"
      and fk: "i \<in> id_col ` set (contentslots s)" by simp_all
    then have nk: "\<not> list_ex (matches i key) (contentslot_options s)"
      by (simp add: stored_key_iff)
    have "\<exists>r s'. query conn (InsertOption i key v) s = (Inr r, s') \<and> faults s' = []"
      using Cons.prems(1)
    proof (rule query_progress)
      fix i' k' v' assume "InsertOption i key v = InsertOption i' k' v'"
      with nk fk show "i' \<in> id_col ` set (contentslots s) \<and>
          \<not> list_ex (matches i' k') (contentslot_options s)" by simp
    qed
    then obtain r s1 where
      q: "query conn (InsertOption i key v) s = (Inr r, s1)" and f: "faults s1 = []" by auto
    from query_InsertOption_ok[OF q]
    have st: "stored i s1 = stored i s @ [(key, v)]"
      and slots: "contentslots s1 = contentslots s" by (simp_all add: stored_insert)
    have "\<exists>b' s'. write_entries conn i ex entries True s1 = (Inr b', s') \<and> faults s' = []"
      using f dist
    proof (rule Cons.IH)
      fix p assume p: "p \<in> set entries" "\<not> Map_has ex (fst p)"
      with fresh have "fst p \<noteq> key" by auto
      with Cons.prems(3)[of p] p st slots
      show "fst p \<notin> fst ` set (stored i s1) \<and> i \<in> id_col ` set (contentslots s1)" by auto
    qed
    with False q e show ?thesis by simp
  qed
qed

lemma sync_progress:
  assumes nf: "faults s = []" and d: "distinct (map fst D)"
    and fk: "\<And>p. p \<in> set D \<Longrightarrow> fst p \<notin> fst ` set (stored i s) \<Longrightarrow>
               i \<in> id_col ` set (contentslots s)"
  shows "\<exists>changed s'. setOptionsForContentSlot conn i (Some D) s = (Inr changed, s') \<and> faults s' = []"
proof -
  from query_options_progress[OF nf, of conn "ForContentSlot i"] obtain rows s1 where
    q: "query_options conn (ForContentSlot i) s = (Inr rows, s1)" and f1: "faults s1 = []" by auto
  define ex where "ex = foldl (\<lambda>options row. Map_set (name row) (val row) options) [] rows"
  from q have g: "getOptionsForContentSlot conn i s = (Inr ex, s1)"
    by (simp add: getOptionsForContentSlot_def ex_def)
  note G = getOptionsForContentSlot_ok[OF g]
  from remove_missing_progress[OF f1, of conn i D "map fst ex" False] obtain b1 s2 where
    r: "remove_missing conn i D (map fst ex) False s1 = (Inr b1, s2)" and f2: "faults s2 = []" by auto
  have s1: "stored i s1 = stored i s" using G(3) by (rule stored_cong)
  from remove_missing_ok[OF r, THEN conjunct1] s1
  have sub: "fst ` set (stored i s2) \<subseteq> fst ` set (stored i s)" by auto
  have slots: "contentslots s2 = contentslots s"
    using remove_missing_ok[OF r, THEN conjunct2, THEN conjunct2, THEN conjunct1] G(4) by simp
  have "\<exists>b' s'. write_entries conn i ex D b1 s2 = (Inr b', s') \<and> faults s' = []"
    using f2 d
  proof (rule write_entries_progress)
    fix p assume p: "p \<in> set D" "\<not> Map_has ex (fst p)"
    then have n: "fst p \<notin> fst ` set (stored i s)" by (simp add: Map_has_keys G(1))
    from fk[OF p(1) n] slots have "i \<in> id_col ` set (contentslots s2)" by simp
    with n sub show "fst p \<notin> fst ` set (stored i s2) \<and> i \<in> id_col ` set (contentslots s2)"
      by auto
  qed
  with g r show ?thesis by (simp add: setOptionsForContentSlot_def)
qed

lemma release_faults: "faults (release conn s) = faults s"
  by (simp add: release_def)

lemma ids_after_update:
  "map id_col (map (\<lambda>row. if id_col row = i then slot_of i v c cs rs ce re else row) rows)
     = map id_col rows"
  by (induction rows) (auto simp: slot_of_def)

lemma update_progress:
  assumes nf: "faults s = []" and d: "distinct (map fst D)"
    and fk: "\<And>p. p \<in> set D \<Longrightarrow> fst p \<notin> fst ` set (stored id' s) \<Longrightarrow>
               id' \<in> id_col ` set (contentslots s)"
  shows "\<exists>r s'. updateContentSlot id' componentType viewId columnStart rowStart columnEnd rowEnd (Some D) s
            = (Inr r, s') \<and> faults s' = []"
proof -
  from getConnection_no_fault[OF nf] obtain s1 where
    g: "getConnection s = (Inr (next_conn s), s1)" and f1: "faults s1 = []" by blast
  from query_progress[OF f1, of "UpdateSlot viewId componentType columnStart rowStart columnEnd rowEnd id'" "next_conn s"]
  obtain res s2 where
    q: "query (next_conn s) (UpdateSlot viewId componentType columnStart rowStart columnEnd rowEnd id') s1
         = (Inr res, s2)" and f2: "faults s2 = []" by auto
  note G = getConnection_ok[OF g]
  note Q = query_UpdateSlot_ok[OF q]
  have st2: "stored id' s2 = stored id' s" using Q G by (simp add: stored_def)
  have ids2: "id_col ` set (contentslots s2) = id_col ` set (contentslots s)"
  proof -
    from Q G have "map id_col (contentslots s2) = map id_col (contentslots s)"
      by (simp only: ids_after_update)
    then show ?thesis by (metis set_map)
  qed
  have "\<exists>changed s3. setOptionsForContentSlot (next_conn s) id' (Some D) s2 = (Inr changed, s3) \<and>
      faults s3 = []"
    using f2 d
  proof (rule sync_progress)
    fix p assume "p \<in> set D" "fst p \<notin> fst ` set (stored id' s2)"
    with fk[of p] st2 ids2 show "id' \<in> id_col ` set (contentslots s2)" by simp
  qed
  then obtain changed s3 where
    o: "setOptionsForContentSlot (next_conn s) id' (Some D) s2 = (Inr changed, s3)" and
    f3: "faults s3 = []" by auto
  from g q o f3 show ?thesis
    by (simp add: updateContentSlot_def try_with_connection_def finally_release_def release_faults)
qed

lemma id_col_slot_of [simp]: "id_col (slot_of i v c cs rs ce re) = i"
  by (simp add: slot_of_def)

lemma sync_stored_list:
  assumes u: "distinct (map fst (stored i s))" and d: "distinct (map fst D)"
    and run: "setOptionsForContentSlot conn i (Some D) s = (Inr changed, s')"
  shows "stored i s' =
     map (written (stored i s) D) (filter (\<lambda>q. hasOwnProperty D (fst q)) (stored i s)) @
     filter (\<lambda>p. \<not> Map_has (stored i s) (fst p)) D"
proof -
  from run obtain ex s1 b1 s2 where
    g: "getOptionsForContentSlot conn i s = (Inr ex, s1)" and
    r: "remove_missing conn i D (map fst ex) False s1 = (Inr b1, s2)" and
    w: "write_entries conn i ex D b1 s2 = (Inr changed, s')"
    by (rule setOptions_parts)
  note G = getOptionsForContentSlot_ok[OF g]
  from G(2)[OF u] have ex: "ex = stored i s" .
  have s1: "stored i s1 = stored i s" using G(3) by (rule stored_cong)
  have keep: "(\<not> (fst p \<in> set (map fst ex) \<and> \<not> hasOwnProperty D (fst p))) = hasOwnProperty D (fst p)"
    if "p \<in> set (stored i s)" for p
    using that by (auto simp: ex)
  have s2: "stored i s2 = filter (\<lambda>q. hasOwnProperty D (fst q)) (stored i s)"
    unfolding remove_missing_ok[OF r, THEN conjunct1] s1 using keep by (rule filter_cong[OF refl])
  show ?thesis
    unfolding write_entries_ok[OF w d, THEN conjunct1] s2 ex ..
qed

text \<open>
  C3. Let the slot table have each id once, the slot's option rows each name once, and
  let \<open>D\<close> be an object. When \<^verbatim>\<open>updateContentSlot(id, ..., D)\<close> completes, it returns
  the id if the slot row existed with other scalar fields (the row update affected a
  row) or the persisted options differed from \<open>D\<close> (the synchronization reported a
  change), and \<^verbatim>\<open>null\<close> only if neither was the case; so a call that leaves the scalar
  fields as they are and changes the options returns the id. A second call with the same
  arguments, made on the store the first one left, returns \<^verbatim>\<open>null\<close> whenever it
  completes, and it does complete when no storage failure is pending.
\<close>

theorem updateContentSlot_result:
  assumes pk: "distinct (map id_col (contentslots s))"
    and uk: "distinct (map fst (stored id' s))"
    and d: "distinct (map fst D)"
    and run: "updateContentSlot id' componentType viewId columnStart rowStart columnEnd rowEnd (Some D) s
              = (Inr r, s')"
  shows "r = (if (\<exists>row \<in> set (contentslots s). id_col row = id' \<and>
                    row \<noteq> slot_of id' viewId componentType columnStart rowStart columnEnd rowEnd) \<or>
                 map_of (stored id' s) \<noteq> map_of D
              then Some id' else None) \<and>
         (\<forall>r2 s''. updateContentSlot id' componentType viewId columnStart rowStart columnEnd rowEnd (Some D) s'
              = (Inr r2, s'') \<longrightarrow> r2 = None) \<and>
         (faults s' = [] \<longrightarrow>
           (\<exists>s''. updateContentSlot id' componentType viewId columnStart rowStart columnEnd rowEnd (Some D) s'
              = (Inr None, s'')))"
proof -
  let ?new = "slot_of id' viewId componentType columnStart rowStart columnEnd rowEnd"
  note U = update_result[OF pk uk d run]
  have ids: "map id_col (contentslots s') = map id_col (contentslots s)"
    unfolding U(2) by (induction "contentslots s") auto
  with pk have pk': "distinct (map id_col (contentslots s'))" by simp
  have same: "\<not> (\<exists>row \<in> set (contentslots s'). id_col row = id' \<and> row \<noteq> ?new)"
    unfolding U(2) by auto
  have second: "r2 = None"
    if "updateContentSlot id' componentType viewId columnStart rowStart columnEnd rowEnd (Some D) s'
              = (Inr r2, s'')" for r2 s''
    using update_result(1)[OF pk' U(5) d that] same U(4) by simp
  have third: "\<exists>s''. updateContentSlot id' componentType viewId columnStart rowStart columnEnd rowEnd (Some D) s'
              = (Inr None, s'')" if "faults s' = []"
  proof -
    have "\<exists>r2 s''. updateContentSlot id' componentType viewId columnStart rowStart columnEnd rowEnd
              (Some D) s' = (Inr r2, s'') \<and> faults s'' = []"
      using that d
    proof (rule update_progress)
      fix p assume "p \<in> set D" "fst p \<notin> fst ` set (stored id' s')"
      with U(3) show "id' \<in> id_col ` set (contentslots s')" by force
    qed
    then obtain r2 s'' where
      u: "updateContentSlot id' componentType viewId columnStart rowStart columnEnd rowEnd (Some D) s'
            = (Inr r2, s'')" by blast
    from second[OF u] u show ?thesis by blast
  qed
  from U(1) second third show ?thesis by blast
qed


theorem updateContentSlot_result_witness:
  "distinct (map id_col (contentslots demo_store)) \<and>
   distinct (map fst (stored 1 demo_store)) \<and>
   distinct (map fst [(''color'', ''blue''), (''size'', ''large'')]) \<and>
   slot_of 1 1 ''Banner'' 1 1 3 2 \<in> set (contentslots demo_store) \<and>
   fst (updateContentSlot 1 ''Banner'' 1 1 1 3 2
          (Some [(''color'', ''blue''), (''size'', ''large'')]) demo_store) = Inr (Some 1) \<and>
   fst (updateContentSlot 1 ''Banner'' 1 1 1 3 2
          (Some [(''color'', ''blue''), (''size'', ''large'')])
          (snd (updateContentSlot 1 ''Banner'' 1 1 1 3 2
             (Some [(''color'', ''blue''), (''size'', ''large'')]) demo_store))) = Inr None"
proof -
  let ?D = "[(''color'', ''blue''), (''size'', ''large'')]"
  let ?a = "updateContentSlot 1 ''Banner'' 1 1 1 3 2 (Some ?D) demo_store"
  have pk: "distinct (map id_col (contentslots demo_store))"
    by (simp add: demo_store_def slot_of_def)
  have uk: "distinct (map fst (stored 1 demo_store))" by (simp add: run_defs)
  have d: "distinct (map fst ?D)" by simp
  have row: "slot_of 1 1 ''Banner'' 1 1 3 2 \<in> set (contentslots demo_store)"
    by (simp add: demo_store_def)
  have fa: "fst ?a = Inr (Some 1)" by (simp add: run_defs op_defs)
  then have run: "?a = (Inr (Some 1), snd ?a)" by (metis prod.collapse)
  have nf: "faults (snd ?a) = []" by (simp add: run_defs op_defs)
  from updateContentSlot_result[OF pk uk d run] nf
  obtain s'' where "updateContentSlot 1 ''Banner'' 1 1 1 3 2 (Some ?D) (snd ?a) = (Inr None, s'')"
    by blast
  then have "fst (updateContentSlot 1 ''Banner'' 1 1 1 3 2 (Some ?D) (snd ?a)) = Inr None"
    by simp
  with pk uk d row fa show ?thesis by simp
qed

text \<open>
  C10, as the store has it. Let no slot row have the id, let no option row refer to it,
  let \<open>D\<close> be a non-empty object and let no other storage failure be pending. Then
  \<^verbatim>\<open>updateContentSlot(id, ..., D)\<close> does not return \<^verbatim>\<open>null\<close>, and it does not return
  the id either: the row update affects nothing, the synchronizer reads no existing
  options and sends the insert for the first entry of \<open>D\<close>, the store refuses it because
  \<open>contentslot_id\<close> is a foreign key, and the call fails with the driver's exception for
  that refusal. Both tables are as before, so no option row without a slot is left, and
  the connection is released.
\<close>

theorem update_without_slot_row:
  assumes absent: "id' \<notin> id_col ` set (contentslots s)"
    and none: "stored id' s = []"
    and ne: "D \<noteq> []"
    and nf: "faults s = []"
  shows "\<exists>s'. updateContentSlot id' componentType viewId columnStart rowStart columnEnd rowEnd (Some D) s
                 = (Inl (SqlError 1452 ''ER_NO_REFERENCED_ROW_2''), s') \<and>
              contentslots s' = contentslots s \<and>
              contentslot_options s' = contentslot_options s \<and>
              leased s' = leased s \<and>
              issued s' = issued s @
                [(next_conn s, Modify (UpdateSlot viewId componentType columnStart rowStart columnEnd rowEnd id')),
                 (next_conn s, SelectOptions (ForContentSlot id')),
                 (next_conn s, Modify (InsertOption id' (fst (hd D)) (snd (hd D))))]"
proof -
  let ?c = "next_conn s"
  from ne obtain k v rest where D: "D = (k, v) # rest" by (cases D) auto
  from getConnection_no_fault[OF nf] obtain s1 where
    g: "getConnection s = (Inr ?c, s1)" and f1: "faults s1 = []" by blast
  note G = getConnection_ok[OF g]
  from query_progress[OF f1, of "UpdateSlot viewId componentType columnStart rowStart columnEnd rowEnd id'" ?c]
  obtain res s2 where
    q: "query ?c (UpdateSlot viewId componentType columnStart rowStart columnEnd rowEnd id') s1 = (Inr res, s2)"
    and f2: "faults s2 = []" by auto
  note Q = query_UpdateSlot_ok[OF q]
  have unchanged: "map (\<lambda>row. if id_col row = id'
        then slot_of id' viewId componentType columnStart rowStart columnEnd rowEnd else row) (contentslots s)
      = contentslots s"
    using absent by (intro map_idI) auto
  from Q G unchanged have cs2: "contentslots s2 = contentslots s" by simp
  from Q G have co2: "contentslot_options s2 = contentslot_options s" by simp
  from Q G have is2: "issued s2 = issued s @
      [(?c, Modify (UpdateSlot viewId componentType columnStart rowStart columnEnd rowEnd id'))]" by simp
  from query_options_progress[OF f2, of ?c "ForContentSlot id'"] obtain rows s3 where
    o: "query_options ?c (ForContentSlot id') s2 = (Inr rows, s3)" and f3: "faults s3 = []" by auto
  note O = query_options_ok[OF o]
  from none co2 have "filter (\<lambda>r. contentslot_id r = id') (contentslot_options s2) = []"
    by (simp add: stored_def)
  with O have rows: "rows = []" by simp
  from o rows have ge: "getOptionsForContentSlot ?c id' s2 = (Inr [], s3)"
    by (simp add: getOptionsForContentSlot_def)
  let ?s4 = "s3\<lparr>issued := issued s3 @ [(?c, Modify (InsertOption id' k v))]\<rparr>"
  from O cs2 absent have "id' \<notin> id_col ` set (contentslots s3)" by simp
  with f3 have ins: "query ?c (InsertOption id' k v) s3 = (Inl (SqlError 1452 ''ER_NO_REFERENCED_ROW_2''), ?s4)"
    by (simp add: query_def send_def next_fault_def)
  from ge ins D have sy: "setOptionsForContentSlot ?c id' (Some D) s2 =
      (Inl (SqlError 1452 ''ER_NO_REFERENCED_ROW_2''), ?s4)"
    by (simp add: setOptionsForContentSlot_def Map_has_def)
  from g q sy have run: "updateContentSlot id' componentType viewId columnStart rowStart columnEnd rowEnd (Some D) s
      = (Inl (SqlError 1452 ''ER_NO_REFERENCED_ROW_2''), release ?c ?s4)"
    by (simp add: updateContentSlot_def try_with_connection_def finally_release_def)
  have "contentslots (release ?c ?s4) = contentslots s"
    using O cs2 by (simp add: release_def)
  moreover have "contentslot_options (release ?c ?s4) = contentslot_options s"
    using O co2 by (simp add: release_def)
  moreover have "leased (release ?c ?s4) = leased s"
    using query_options_leased[of ?c "ForContentSlot id'" s2] o
      query_leased[of ?c "UpdateSlot viewId componentType columnStart rowStart columnEnd rowEnd id'" s1] q G
    by (simp add: release_def)
  moreover have "issued (release ?c ?s4) = issued s @
                [(?c, Modify (UpdateSlot viewId componentType columnStart rowStart columnEnd rowEnd id')),
                 (?c, SelectOptions (ForContentSlot id')),
                 (?c, Modify (InsertOption id' (fst (hd D)) (snd (hd D))))]"
    using O is2 D by (simp add: release_def)
  ultimately show ?thesis using run by blast
qed

theorem update_without_slot_row_witness:
  "9 \<notin> id_col ` set (contentslots demo_store) \<and>
   stored 9 demo_store = [] \<and>
   faults demo_store = [] \<and>
   fst (updateContentSlot 9 ''Banner'' 1 1 1 3 2 (Some [(''color'', ''red'')]) demo_store)
     = Inl (SqlError 1452 ''ER_NO_REFERENCED_ROW_2'') \<and>
   contentslot_options
     (snd (updateContentSlot 9 ''Banner'' 1 1 1 3 2 (Some [(''color'', ''red'')]) demo_store))
     = contentslot_options demo_store"
proof -
  let ?D = "[(''color'', ''red'')]"
  let ?a = "updateContentSlot 9 ''Banner'' 1 1 1 3 2 (Some ?D) demo_store"
  have absent: "9 \<notin> id_col ` set (contentslots demo_store)"
    by (simp add: demo_store_def slot_of_def)
  have none: "stored 9 demo_store = []" by (simp add: run_defs)
  have ne: "?D \<noteq> []" by simp
  have nf: "faults demo_store = []" by (simp add: demo_store_def)
  from update_without_slot_row[OF absent none ne nf, of "''Banner''" 1 1 1 3 2]
  obtain s' where "?a = (Inl (SqlError 1452 ''ER_NO_REFERENCED_ROW_2''), s')"
    "contentslot_options s' = contentslot_options demo_store" by blast
  then have "fst ?a = Inl (SqlError 1452 ''ER_NO_REFERENCED_ROW_2'')"
    "contentslot_options (snd ?a) = contentslot_options demo_store" by simp_all
  with absent none nf show ?thesis by simp
qed

text \<open>The claim as stated, that the call returns the id and leaves option rows for an id
  no slot has, fails on the store of three slots for the id 9.\<close>

theorem no_orphan_rows_for_missing_slot:
  "9 \<notin> id_col ` set (contentslots demo_store) \<and>
   stored 9 demo_store = [] \<and>
   fst (updateContentSlot 9 ''Banner'' 1 1 1 3 2 (Some [(''color'', ''red'')]) demo_store)
     \<noteq> Inr (Some 9) \<and>
   stored 9 (snd (updateContentSlot 9 ''Banner'' 1 1 1 3 2 (Some [(''color'', ''red'')]) demo_store))
     = []"
  by (simp add: run_defs op_defs)

section \<open>The storage calls an operation makes\<close>

text \<open>Every operation passes the fault script on: it consumes one entry per storage
  call, returns a value when no consumed entry is a failure, and otherwise ends with the
  first failure consumed, unchanged.\<close>

lemma first_fault_append:
  "first_fault (xs @ ys) = (case first_fault xs of Some f \<Rightarrow> Some f | None \<Rightarrow> first_fault ys)"
  by (induction xs rule: first_fault.induct) auto

lemma first_fault_add:
  "first_fault (take (j + k) fs) =
     (case first_fault (take j fs) of Some f \<Rightarrow> Some f | None \<Rightarrow> first_fault (take k (drop j fs)))"
  by (simp add: take_add first_fault_append)

lemma passes_ok:
  "faults s1 = drop j (faults s) \<Longrightarrow> first_fault (take j (faults s)) = None \<Longrightarrow>
   passes b s (Inr r, s1)"
  unfolding passes_def by (rule exI[of _ j]) simp

lemma passes_thrown:
  "faults s1 = drop j (faults s) \<Longrightarrow> first_fault (take j (faults s)) = Some (n, c) \<Longrightarrow>
   passes b s (Inl (SqlError n c), s1)"
  unfolding passes_def by (rule exI[of _ j]) simp

lemma passes_refused:
  "faults s1 = drop j (faults s) \<Longrightarrow> first_fault (take j (faults s)) = None \<Longrightarrow> refusal e \<Longrightarrow>
   passes True s (Inl e, s1)"
  unfolding passes_def by (rule exI[of _ j]) simp

lemma passes_value: "passes b s (Inr r, s)"
  by (rule passes_ok[of _ 0]) simp_all

lemma passes_cases:
  assumes "passes b s (r, s1)"
  obtains j x where "r = Inr x" "faults s1 = drop j (faults s)" "first_fault (take j (faults s)) = None"
  | j n c where "r = Inl (SqlError n c)" "faults s1 = drop j (faults s)"
      "first_fault (take j (faults s)) = Some (n, c)"
  | j e where "r = Inl e" "b" "refusal e" "faults s1 = drop j (faults s)"
      "first_fault (take j (faults s)) = None"
proof (cases r)
  case (Inl e)
  with assms obtain j where "faults s1 = drop j (faults s)"
    "(\<exists>n c. e = SqlError n c \<and> first_fault (take j (faults s)) = Some (n, c)) \<or>
     (b \<and> refusal e \<and> first_fault (take j (faults s)) = None)"
    unfolding passes_def by auto
  with Inl that(2,3) show ?thesis by blast
next
  case (Inr x)
  with assms obtain j where "faults s1 = drop j (faults s)" "first_fault (take j (faults s)) = None"
    unfolding passes_def by auto
  with Inr that(1) show ?thesis by blast
qed

lemma passes_bind:
  assumes one: "passes b s (Inr r1, s1)" and two: "passes b s1 (r, s2)"
  shows "passes b s (r, s2)"
proof -
  from one obtain j where j: "faults s1 = drop j (faults s)"
    "first_fault (take j (faults s)) = None"
    by (rule passes_cases) simp_all
  have f: "first_fault (take (j + k) (faults s)) = first_fault (take k (faults s1))" for k
    using j by (simp add: first_fault_add)
  have d: "drop k (faults s1) = drop (j + k) (faults s)" for k
    using j(1) by (simp add: add.commute)
  from two show ?thesis
  proof (cases rule: passes_cases)
    case (1 k x)
    from 1(2) d[of k] 1(3) f[of k] show ?thesis
      unfolding 1(1) by (intro passes_ok[of _ "j + k"]) simp_all
  next
    case (2 k n c)
    from 2(2) d[of k] 2(3) f[of k] show ?thesis
      unfolding 2(1) by (intro passes_thrown[of _ "j + k"]) simp_all
  next
    case (3 k e)
    from 3(2) have bt: "b = True" by simp
    from 3(4) d[of k] 3(5) f[of k] 3(3) show ?thesis
      unfolding 3(1) bt by (intro passes_refused[of _ "j + k"]) simp_all
  qed
qed

lemma passes_retype:
  "passes b s ((Inl e, s1) :: (exn + 'a) \<times> storage) \<Longrightarrow>
   passes b s ((Inl e, s1) :: (exn + 'c) \<times> storage)"
  by (simp add: passes_def)

lemma passes_result:
  "passes b s ((Inr x, s1) :: (exn + 'a) \<times> storage) \<Longrightarrow> faults s2 = faults s1 \<Longrightarrow>
   passes b s ((Inr y, s2) :: (exn + 'c) \<times> storage)"
  by (simp add: passes_def)

lemma passes_state:
  "passes b s (r, s1) \<Longrightarrow> faults s2 = faults s1 \<Longrightarrow> passes b s (r, s2)"
  by (simp add: passes_def)

lemma next_fault_ok:
  "next_fault s = (None, s') \<Longrightarrow>
     faults s' = drop 1 (faults s) \<and> first_fault (take 1 (faults s)) = None"
  by (auto simp: next_fault_def split: list.splits option.splits)

lemma next_fault_thrown:
  "next_fault s = (Some e, s') \<Longrightarrow>
     \<exists>n c. e = SqlError n c \<and> faults s' = drop 1 (faults s) \<and>
       first_fault (take 1 (faults s)) = Some (n, c)"
  by (auto simp: next_fault_def split: list.splits option.splits)

lemma send_ok:
  "send conn st s = (None, s') \<Longrightarrow>
     faults s' = drop 1 (faults s) \<and> first_fault (take 1 (faults s)) = None"
  unfolding send_def by (drule next_fault_ok) simp

lemma send_thrown:
  "send conn st s = (Some e, s') \<Longrightarrow>
     \<exists>n c. e = SqlError n c \<and> faults s' = drop 1 (faults s) \<and>
       first_fault (take 1 (faults s)) = Some (n, c)"
  unfolding send_def by (drule next_fault_thrown) simp

lemma getConnection_passes: "passes b s (getConnection s)"
proof -
  obtain r s1 where n: "next_fault s = (r, s1)" by (cases "next_fault s")
  show ?thesis
  proof (cases r)
    case None
    with n have g: "getConnection s =
        (Inr (next_conn s1), s1\<lparr>leased := next_conn s1 # leased s1, next_conn := Suc (next_conn s1)\<rparr>)"
      by (simp add: getConnection_def)
    from next_fault_ok[OF n[unfolded None]] show ?thesis
      unfolding g by (intro passes_ok[of _ 1]) simp_all
  next
    case (Some e)
    with n have g: "getConnection s = (Inl e, s1)" by (simp add: getConnection_def)
    from next_fault_thrown[OF n[unfolded Some]] obtain m c where
      "e = SqlError m c" "faults s1 = drop 1 (faults s)" "first_fault (take 1 (faults s)) = Some (m, c)"
      by blast
    then show ?thesis unfolding g by (simp add: passes_thrown)
  qed
qed

lemma query_slots_passes: "passes b s (query_slots conn q s)"
proof -
  obtain r s1 where n: "send conn (SelectSlots q) s = (r, s1)" by (cases "send conn (SelectSlots q) s")
  show ?thesis
  proof (cases r)
    case None
    with n have g: "query_slots conn q s = (Inr (select_slots q s1), s1)"
      by (simp add: query_slots_def)
    from send_ok[OF n[unfolded None]] show ?thesis
      unfolding g by (intro passes_ok[of _ 1]) simp_all
  next
    case (Some e)
    with n have g: "query_slots conn q s = (Inl e, s1)" by (simp add: query_slots_def)
    from send_thrown[OF n[unfolded Some]] obtain m c where
      "e = SqlError m c" "faults s1 = drop 1 (faults s)" "first_fault (take 1 (faults s)) = Some (m, c)"
      by blast
    then show ?thesis unfolding g by (simp add: passes_thrown)
  qed
qed

lemma query_options_passes: "passes b s (query_options conn q s)"
proof -
  obtain r s1 where n: "send conn (SelectOptions q) s = (r, s1)" by (cases "send conn (SelectOptions q) s")
  show ?thesis
  proof (cases r)
    case None
    with n have g: "query_options conn q s = (Inr (select_options q s1), s1)"
      by (simp add: query_options_def)
    from send_ok[OF n[unfolded None]] show ?thesis
      unfolding g by (intro passes_ok[of _ 1]) simp_all
  next
    case (Some e)
    with n have g: "query_options conn q s = (Inl e, s1)" by (simp add: query_options_def)
    from send_thrown[OF n[unfolded Some]] obtain m c where
      "e = SqlError m c" "faults s1 = drop 1 (faults s)" "first_fault (take 1 (faults s)) = Some (m, c)"
      by blast
    then show ?thesis unfolding g by (simp add: passes_thrown)
  qed
qed

lemma execute_refusal: "execute st s = Inl e \<Longrightarrow> refusal e"
  by (cases st) (auto split: if_splits simp: Let_def)

lemma execute_accepts:
  "(\<And>i k v. st = InsertOption i k v \<Longrightarrow>
       i \<in> id_col ` set (contentslots s) \<and> \<not> list_ex (matches i k) (contentslot_options s)) \<Longrightarrow>
   \<exists>r s'. execute st s = Inr (r, s')"
  by (cases st) (auto simp: Let_def)

lemma query_passes:
  assumes "\<And>i k v. \<not> b \<Longrightarrow> st = InsertOption i k v \<Longrightarrow>
       i \<in> id_col ` set (contentslots s) \<and> \<not> list_ex (matches i k) (contentslot_options s)"
  shows "passes b s (query conn st s)"
proof -
  obtain r s1 where n: "send conn (Modify st) s = (r, s1)" by (cases "send conn (Modify st) s")
  note F = send_fields[OF n]
  show ?thesis
  proof (cases r)
    case (Some e)
    with n have g: "query conn st s = (Inl e, s1)" by (simp add: query_def)
    from send_thrown[OF n[unfolded Some]] obtain m c where
      "e = SqlError m c" "faults s1 = drop 1 (faults s)" "first_fault (take 1 (faults s)) = Some (m, c)"
      by blast
    then show ?thesis unfolding g by (simp add: passes_thrown)
  next
    case None
    note O = send_ok[OF n[unfolded None]]
    show ?thesis
    proof (cases "execute st s1")
      case (Inl e)
      with n None have g: "query conn st s = (Inl e, s1)" by (simp add: query_def)
      from execute_refusal[OF Inl] have re: "refusal e" .
      have bt: "b = True"
      proof (rule ccontr)
        assume "b \<noteq> True"
        then have nb: "\<not> b" by simp
        have "\<exists>r s'. execute st s1 = Inr (r, s')"
        proof (rule execute_accepts)
          fix i k v assume "st = InsertOption i k v"
          from assms[OF nb this] F
          show "i \<in> id_col ` set (contentslots s1) \<and> \<not> list_ex (matches i k) (contentslot_options s1)"
            by simp
        qed
        with Inl show False by simp
      qed
      from O re show ?thesis unfolding g bt by (intro passes_refused[of _ 1]) simp_all
    next
      case (Inr p)
      obtain res s2 where p: "p = (res, s2)" by (cases p)
      with Inr execute_faults[of st s1 res s2] have f2: "faults s2 = faults s1" by simp
      from n None Inr p have g: "query conn st s = (Inr res, s2)" by (simp add: query_def)
      from O f2 show ?thesis unfolding g by (intro passes_ok[of _ 1]) simp_all
    qed
  qed
qed

lemma remove_missing_passes: "passes a s (remove_missing conn i D keys b s)"
proof (induction keys arbitrary: b s)
  case Nil
  show ?case by (simp add: passes_value)
next
  case (Cons key keys)
  show ?case
  proof (cases "hasOwnProperty D key")
    case True
    with Cons.IH[where s=s and b=b] show ?thesis by simp
  next
    case False
    obtain r s1 where q: "query conn (DeleteOption i key) s = (r, s1)"
      by (cases "query conn (DeleteOption i key) s")
    have p: "passes a s (r, s1)"
      using query_passes[of a "DeleteOption i key" s conn] q by simp
    show ?thesis
    proof (cases r)
      case (Inl e)
      with False q have "remove_missing conn i D (key # keys) b s = (Inl e, s1)" by simp
      with p Inl show ?thesis by (simp add: passes_retype)
    next
      case (Inr res)
      with False q have e: "remove_missing conn i D (key # keys) b s = remove_missing conn i D keys True s1"
        by simp
      obtain r2 s2 where r2: "remove_missing conn i D keys True s1 = (r2, s2)"
        by (cases "remove_missing conn i D keys True s1")
      with Cons.IH[where s=s1 and b=True] have "passes a s1 (r2, s2)" by simp
      with p[unfolded Inr] have "passes a s (r2, s2)" by (rule passes_bind)
      with e r2 show ?thesis by simp
    qed
  qed
qed

lemma write_entries_passes:
  assumes "\<not> a \<Longrightarrow> distinct (map fst entries)"
    and "\<And>p. \<not> a \<Longrightarrow> p \<in> set entries \<Longrightarrow> \<not> Map_has ex (fst p) \<Longrightarrow>
           fst p \<notin> fst ` set (stored i s) \<and> i \<in> id_col ` set (contentslots s)"
  shows "passes a s (write_entries conn i ex entries b s)"
  using assms
proof (induction entries arbitrary: b s)
  case Nil
  show ?case by (simp add: passes_value)
next
  case (Cons e entries)
  obtain key v where e: "e = (key, v)" by (cases e)
  have dist: "distinct (map fst entries)" and fresh: "key \<notin> fst ` set entries" if "\<not> a"
    using Cons.prems(1)[OF that] e by auto
  show ?case
  proof (cases "Map_has ex key")
    case True
    obtain r s1 where q: "query conn (UpdateOption v i key) s = (r, s1)"
      by (cases "query conn (UpdateOption v i key) s")
    have p: "passes a s (r, s1)"
      using query_passes[of a "UpdateOption v i key" s conn] q by simp
    show ?thesis
    proof (cases r)
      case (Inl x)
      with True q e have "write_entries conn i ex (e # entries) b s = (Inl x, s1)" by simp
      with p Inl show ?thesis by (simp add: passes_retype)
    next
      case (Inr res)
      let ?b = "if affectedRows res = 1 then True else b"
      from Inr True q e have eq: "write_entries conn i ex (e # entries) b s =
          write_entries conn i ex entries ?b s1" by simp
      from query_UpdateOption_ok[OF q[unfolded Inr]]
      have st: "stored i s1 = map (\<lambda>p. (fst p, if fst p = key then v else snd p)) (stored i s)"
        and slots: "contentslots s1 = contentslots s"
        by (simp_all add: stored_update)
      then have names: "fst ` set (stored i s1) = fst ` set (stored i s)"
        by (simp add: image_image)
      have "passes a s1 (write_entries conn i ex entries ?b s1)"
      proof (rule Cons.IH)
        assume "\<not> a" then show "distinct (map fst entries)" by (rule dist)
      next
        fix p assume "\<not> a" "p \<in> set entries" "\<not> Map_has ex (fst p)"
        with Cons.prems(2)[of p] names slots
        show "fst p \<notin> fst ` set (stored i s1) \<and> i \<in> id_col ` set (contentslots s1)" by simp
      qed
      then obtain r2 s2 where r2: "write_entries conn i ex entries ?b s1 = (r2, s2)"
        and p2: "passes a s1 (r2, s2)"
        by (cases "write_entries conn i ex entries ?b s1") simp
      from p[unfolded Inr] p2 have "passes a s (r2, s2)" by (rule passes_bind)
      with eq r2 show ?thesis by simp
    qed
  next
    case False
    obtain r s1 where q: "query conn (InsertOption i key v) s = (r, s1)"
      by (cases "query conn (InsertOption i key v) s")
    have "passes a s (query conn (InsertOption i key v) s)"
    proof (rule query_passes)
      fix i' k' v' assume na: "\<not> a" and eq: "InsertOption i key v = InsertOption i' k' v'"
      from Cons.prems(2)[OF na, of e] e False
      have "key \<notin> fst ` set (stored i s)" "i \<in> id_col ` set (contentslots s)" by simp_all
      with eq show "i' \<in> id_col ` set (contentslots s) \<and>
          \<not> list_ex (matches i' k') (contentslot_options s)"
        by (simp add: stored_key_iff)
    qed
    with q have p: "passes a s (r, s1)" by simp
    show ?thesis
    proof (cases r)
      case (Inl x)
      with False q e have "write_entries conn i ex (e # entries) b s = (Inl x, s1)" by simp
      with p Inl show ?thesis by (simp add: passes_retype)
    next
      case (Inr res)
      from Inr False q e have eq: "write_entries conn i ex (e # entries) b s =
          write_entries conn i ex entries True s1" by simp
      from query_InsertOption_ok[OF q[unfolded Inr]]
      have st: "stored i s1 = stored i s @ [(key, v)]"
        and slots: "contentslots s1 = contentslots s" by (simp_all add: stored_insert)
      have "passes a s1 (write_entries conn i ex entries True s1)"
      proof (rule Cons.IH)
        assume "\<not> a" then show "distinct (map fst entries)" by (rule dist)
      next
        fix p assume na: "\<not> a" and p: "p \<in> set entries" "\<not> Map_has ex (fst p)"
        with fresh[OF na] have "fst p \<noteq> key" by auto
        with Cons.prems(2)[OF na, of p] p st slots
        show "fst p \<notin> fst ` set (stored i s1) \<and> i \<in> id_col ` set (contentslots s1)" by auto
      qed
      then obtain r2 s2 where r2: "write_entries conn i ex entries True s1 = (r2, s2)"
        and p2: "passes a s1 (r2, s2)"
        by (cases "write_entries conn i ex entries True s1") simp
      from p[unfolded Inr] p2 have "passes a s (r2, s2)" by (rule passes_bind)
      with eq r2 show ?thesis by simp
    qed
  qed
qed

lemma sync_passes:
  assumes d: "\<not> a \<Longrightarrow> distinct (map fst D)"
    and fk: "\<And>p. \<not> a \<Longrightarrow> p \<in> set D \<Longrightarrow> fst p \<notin> fst ` set (stored i s) \<Longrightarrow>
               i \<in> id_col ` set (contentslots s)"
  shows "passes a s (setOptionsForContentSlot conn i (Some D) s)"
proof -
  obtain r0 s1 where q: "query_options conn (ForContentSlot i) s = (r0, s1)"
    by (cases "query_options conn (ForContentSlot i) s")
  with query_options_passes[of a s conn "ForContentSlot i"] have p0: "passes a s (r0, s1)" by simp
  show ?thesis
  proof (cases r0)
    case (Inl e)
    with q have "setOptionsForContentSlot conn i (Some D) s = (Inl e, s1)"
      by (simp add: setOptionsForContentSlot_def getOptionsForContentSlot_def)
    with p0 Inl show ?thesis by (simp add: passes_retype)
  next
    case (Inr rows)
    define ex where "ex = foldl (\<lambda>options row. Map_set (name row) (val row) options) [] rows"
    from q Inr have g: "getOptionsForContentSlot conn i s = (Inr ex, s1)"
      by (simp add: getOptionsForContentSlot_def ex_def)
    note G = getOptionsForContentSlot_ok[OF g]
    have p1: "passes a s (Inr ex, s1)"
      using p0 Inr by (simp add: passes_def)
    obtain r2 s2 where r: "remove_missing conn i D (map fst ex) False s1 = (r2, s2)"
      by (cases "remove_missing conn i D (map fst ex) False s1")
    with remove_missing_passes[of a s1 conn i D "map fst ex" False] have p2: "passes a s1 (r2, s2)"
      by simp
    show ?thesis
    proof (cases r2)
      case (Inl e)
      with g r have "setOptionsForContentSlot conn i (Some D) s = (Inl e, s2)"
        by (simp add: setOptionsForContentSlot_def)
      moreover from p1 p2 have "passes a s (r2, s2)" by (rule passes_bind)
      ultimately show ?thesis using Inl by (simp add: passes_retype)
    next
      case r2: (Inr b1)
      from g r r2 have eq: "setOptionsForContentSlot conn i (Some D) s = write_entries conn i ex D b1 s2"
        by (simp add: setOptionsForContentSlot_def)
      have s1: "stored i s1 = stored i s" using G(3) by (rule stored_cong)
      from remove_missing_ok[OF r[unfolded r2], THEN conjunct1] s1
      have sub: "fst ` set (stored i s2) \<subseteq> fst ` set (stored i s)" by auto
      have slots: "contentslots s2 = contentslots s"
        using remove_missing_ok[OF r[unfolded r2], THEN conjunct2, THEN conjunct2, THEN conjunct1] G(4)
        by simp
      have "passes a s2 (write_entries conn i ex D b1 s2)"
      proof (rule write_entries_passes)
        assume "\<not> a" then show "distinct (map fst D)" by (rule d)
      next
        fix p assume na: "\<not> a" and p: "p \<in> set D" "\<not> Map_has ex (fst p)"
        then have n: "fst p \<notin> fst ` set (stored i s)" by (simp add: Map_has_keys G(1))
        from fk[OF na p(1) n] slots have "i \<in> id_col ` set (contentslots s2)" by simp
        with n sub show "fst p \<notin> fst ` set (stored i s2) \<and> i \<in> id_col ` set (contentslots s2)"
          by auto
      qed
      then obtain r3 s3 where w: "write_entries conn i ex D b1 s2 = (r3, s3)"
        and p3: "passes a s2 (r3, s3)"
        by (cases "write_entries conn i ex D b1 s2") simp
      from p1 p2[unfolded r2] have "passes a s (Inr b1, s2)" by (rule passes_bind)
      from this p3 have "passes a s (r3, s3)" by (rule passes_bind)
      with eq w show ?thesis by simp
    qed
  qed
qed

lemma sync_passes_any: "passes True s (setOptionsForContentSlot conn i options s)"
proof (cases options)
  case None
  have "setOptionsForContentSlot conn i None s = setOptionsForContentSlot conn i (Some []) s"
    by (simp add: setOptionsForContentSlot_def)
  with None sync_passes[of True "[]" i s conn] show ?thesis by simp
next
  case (Some D)
  with sync_passes[of True D i s conn] show ?thesis by simp
qed

lemma getOptionsForContentSlots_passes: "passes a s (getOptionsForContentSlots conn ids s)"
proof -
  obtain r0 s1 where q: "query_options conn (ForContentSlots ids) s = (r0, s1)"
    by (cases "query_options conn (ForContentSlots ids) s")
  with query_options_passes[of a s conn "ForContentSlots ids"] have p0: "passes a s (r0, s1)" by simp
  show ?thesis
  proof (cases r0)
    case (Inl e)
    with q have "getOptionsForContentSlots conn ids s = (Inl e, s1)"
      by (simp add: getOptionsForContentSlots_def)
    with p0 Inl show ?thesis by (simp add: passes_retype)
  next
    case (Inr rows)
    with q query_options_ok[of conn "ForContentSlots ids" s rows s1]
    have "\<forall>r \<in> set rows. contentslot_id r \<in>
        fst ` set (foldl (\<lambda>options id'. Map_set id' [] options) [] ids)"
      by (simp add: initial_maps_keys)
    from fill_ok[OF this] obtain m where
      "fill (foldl (\<lambda>options id'. Map_set id' [] options) [] ids) rows = Inr m" by blast
    with q Inr have eq: "getOptionsForContentSlots conn ids s = (Inr m, s1)"
      by (simp add: getOptionsForContentSlots_def)
    from p0[unfolded Inr] have "passes a s (Inr m, s1)" by (rule passes_result) simp
    with eq show ?thesis by simp
  qed
qed

lemma try_passes:
  assumes "\<And>conn s1. getConnection s = (Inr conn, s1) \<Longrightarrow> passes a s1 (body conn s1)"
  shows "passes a s (snd (try_with_connection body s))"
proof -
  obtain r s1 where g: "getConnection s = (r, s1)" by (cases "getConnection s")
  with getConnection_passes[of a s] have p: "passes a s (r, s1)" by simp
  show ?thesis
  proof (cases r)
    case (Inl e)
    with g have "snd (try_with_connection body s) = (Inl e, s1)"
      by (simp add: try_with_connection_def)
    with p Inl show ?thesis by (simp add: passes_retype)
  next
    case (Inr conn)
    with g have eq: "snd (try_with_connection body s) = body conn s1"
      by (simp add: try_with_connection_def)
    obtain r2 s2 where b: "body conn s1 = (r2, s2)" by (cases "body conn s1")
    with assms[OF g[unfolded Inr]] have "passes a s1 (r2, s2)" by simp
    with p[unfolded Inr] have "passes a s (r2, s2)" by (rule passes_bind)
    with eq b show ?thesis by simp
  qed
qed

lemma finally_release_parts:
  "fst (finally_release (c, r, s)) = r"
  "faults (snd (finally_release (c, r, s))) = faults s"
  by (cases c; simp add: finally_release_def release_def)+

lemma scoped_passes:
  assumes "\<And>conn s1. getConnection s = (Inr conn, s1) \<Longrightarrow> passes a s1 (body conn s1)"
  shows "passes a s (finally_release (try_with_connection body s))"
proof -
  obtain c r s2 where t: "try_with_connection body s = (c, r, s2)"
    by (cases "try_with_connection body s") auto
  have "passes a s (snd (try_with_connection body s))"
    by (rule try_passes) (rule assms)
  with t have "passes a s (r, s2)" by simp
  then have "passes a s (r, snd (finally_release (c, r, s2)))"
    by (rule passes_state) (simp add: finally_release_parts)
  moreover have "finally_release (c, r, s2) = (r, snd (finally_release (c, r, s2)))"
    using finally_release_parts(1)[of c r s2] by (metis prod.collapse)
  ultimately show ?thesis unfolding t by simp
qed

lemma used_drop: "faults s1 = drop j (faults s) \<Longrightarrow> used s s1 = take j (faults s)"
proof -
  assume d: "faults s1 = drop j (faults s)"
  show ?thesis
  proof (cases "j \<le> length (faults s)")
    case True
    with d show ?thesis by (simp add: used_def)
  next
    case False
    with d show ?thesis by (simp add: used_def)
  qed
qed

lemma passes_exact:
  assumes "passes False s (r, s1)"
  shows "case first_fault (used s s1) of
           None \<Rightarrow> (\<exists>x. r = Inr x)
         | Some (n, c) \<Rightarrow> r = Inl (SqlError n c)"
  using assms
proof (cases rule: passes_cases)
  case (1 j x)
  from used_drop[OF 1(2)] 1(1,3) show ?thesis by simp
next
  case (2 j n c)
  from used_drop[OF 2(2)] 2(1,3) show ?thesis by simp
next
  case (3 j e)
  then show ?thesis by simp
qed

lemma passes_loose:
  assumes "passes True s (r, s1)"
  shows "case first_fault (used s s1) of
           None \<Rightarrow> (\<exists>x. r = Inr x) \<or> (\<exists>e. r = Inl e \<and> refusal e)
         | Some (n, c) \<Rightarrow> r = Inl (SqlError n c)"
  using assms
proof (cases rule: passes_cases)
  case (1 j x)
  from used_drop[OF 1(2)] 1(1,3) show ?thesis by simp
next
  case (2 j n c)
  from used_drop[OF 2(2)] 2(1,3) show ?thesis by simp
next
  case (3 j e)
  from used_drop[OF 3(4)] 3(1,3,5) show ?thesis by simp
qed

lemma passes_then:
  assumes "passes a s X"
    and "\<And>x s2. X = (Inr x, s2) \<Longrightarrow> passes a s2 (F x s2)"
  shows "passes a s (case X of (Inl e, s2) \<Rightarrow> (Inl e, s2) | (Inr x, s2) \<Rightarrow> F x s2)"
proof -
  obtain r s2 where X: "X = (r, s2)" by (cases X)
  show ?thesis
  proof (cases r)
    case (Inl e)
    with assms(1) X show ?thesis by (simp add: passes_retype)
  next
    case (Inr x)
    obtain r3 s3 where F: "F x s2 = (r3, s3)" by (cases "F x s2")
    from assms(2)[of x s2] X Inr F have "passes a s2 (r3, s3)" by simp
    with assms(1)[unfolded X Inr] have "passes a s (r3, s3)" by (rule passes_bind)
    with X Inr F show ?thesis by simp
  qed
qed

lemma deleteOne_passes: "passes False s (deleteOne id' s)"
  unfolding deleteOne_def
proof (rule scoped_passes)
  fix conn s1
  show "passes False s1 (case query conn (DeleteSlot id') s1 of
         (Inl e, s2) \<Rightarrow> (Inl e, s2)
       | (Inr result, s2) \<Rightarrow> (Inr (if affectedRows result = 1 then Some id' else None), s2))"
  proof (rule passes_then)
    show "passes False s1 (query conn (DeleteSlot id') s1)" by (rule query_passes) simp
  qed (rule passes_value)
qed

lemma byComponentType_passes: "passes False s (getContentSlotsByComponentType componentType s)"
  unfolding getContentSlotsByComponentType_def
proof (rule scoped_passes)
  fix conn s1
  show "passes False s1 (case query_slots conn (ByComponentType componentType) s1 of
         (Inl e, s2) \<Rightarrow> (Inl e, s2)
       | (Inr rows, s2) \<Rightarrow> (Inr (map rowToObject rows), s2))"
    by (rule passes_then) (rule query_slots_passes, rule passes_value)
qed

lemma byViewId_passes: "passes False s (getContentSlotsByViewId viewId s)"
  unfolding getContentSlotsByViewId_def
proof (rule scoped_passes)
  fix conn s1
  show "passes False s1 (case query_slots conn (ByViewId viewId) s1 of
         (Inl e, s2) \<Rightarrow> (Inl e, s2)
       | (Inr rows, s2) \<Rightarrow>
           if length rows = 0 then (Inr [], s2)
           else
             (let contentSlotIds = map id_col rows in
              case getOptionsForContentSlots conn contentSlotIds s2 of
                (Inl e, s3) \<Rightarrow> (Inl e, s3)
              | (Inr options, s3) \<Rightarrow>
                  (map_rows (\<lambda>row. rowToObjectWithOptions row (map_of options (id_col row))) rows,
                   s3)))"
  proof (rule passes_then)
    show "passes False s1 (query_slots conn (ByViewId viewId) s1)" by (rule query_slots_passes)
  next
    fix rows s2
    show "passes False s2 (if length rows = 0 then (Inr [], s2)
           else
             (let contentSlotIds = map id_col rows in
              case getOptionsForContentSlots conn contentSlotIds s2 of
                (Inl e, s3) \<Rightarrow> (Inl e, s3)
              | (Inr options, s3) \<Rightarrow>
                  (map_rows (\<lambda>row. rowToObjectWithOptions row (map_of options (id_col row))) rows,
                   s3)))"
    proof (cases "length rows = 0")
      case True
      then show ?thesis by (simp add: passes_value)
    next
      case False
      have "passes False s2 (case getOptionsForContentSlots conn (map id_col rows) s2 of
                (Inl e, s3) \<Rightarrow> (Inl e, s3)
              | (Inr options, s3) \<Rightarrow>
                  (map_rows (\<lambda>row. rowToObjectWithOptions row (map_of options (id_col row))) rows,
                   s3))"
      proof (rule passes_then)
        show "passes False s2 (getOptionsForContentSlots conn (map id_col rows) s2)"
          by (rule getOptionsForContentSlots_passes)
      next
        fix options s3
        assume "getOptionsForContentSlots conn (map id_col rows) s2 = (Inr options, s3)"
        from getOptionsForContentSlots_ok(1)[OF this]
        have "set (map id_col rows) \<subseteq> fst ` set options" by simp
        from map_rows_ok[OF this] obtain slots where
          "map_rows (\<lambda>row. rowToObjectWithOptions row (map_of options (id_col row))) rows = Inr slots"
          by blast
        then show "passes False s3
          (map_rows (\<lambda>row. rowToObjectWithOptions row (map_of options (id_col row))) rows, s3)"
          by (simp add: passes_value)
      qed
      with False show ?thesis by (simp add: Let_def)
    qed
  qed
qed

lemma update_body_passes:
  assumes "passes a s2 (setOptionsForContentSlot conn id' options s2)"
  shows "passes a s2 (case setOptionsForContentSlot conn id' options s2 of
              (Inl e, s3) \<Rightarrow> (Inl e, s3)
            | (Inr optionsChanged, s3) \<Rightarrow>
                (Inr (if contentSlotChanged \<or> optionsChanged then Some id' else None), s3))"
  by (rule passes_then) (rule assms, rule passes_value)

lemma update_passes_any:
  "passes True s
     (updateContentSlot id' componentType viewId columnStart rowStart columnEnd rowEnd options s)"
  unfolding updateContentSlot_def Let_def
proof (rule scoped_passes)
  fix conn s1
  show "passes True s1
     (case query conn (UpdateSlot viewId componentType columnStart rowStart columnEnd rowEnd id') s1 of
         (Inl e, s2) \<Rightarrow> (Inl e, s2)
       | (Inr result, s2) \<Rightarrow>
           (case setOptionsForContentSlot conn id' options s2 of
              (Inl e, s3) \<Rightarrow> (Inl e, s3)
            | (Inr optionsChanged, s3) \<Rightarrow>
                (Inr (if affectedRows result = 1 \<or> optionsChanged then Some id' else None), s3)))"
  proof (rule passes_then)
    show "passes True s1
       (query conn (UpdateSlot viewId componentType columnStart rowStart columnEnd rowEnd id') s1)"
      by (rule query_passes) simp
  next
    fix result s2
    show "passes True s2 (case setOptionsForContentSlot conn id' options s2 of
              (Inl e, s3) \<Rightarrow> (Inl e, s3)
            | (Inr optionsChanged, s3) \<Rightarrow>
                (Inr (if affectedRows result = 1 \<or> optionsChanged then Some id' else None), s3))"
      by (rule update_body_passes) (rule sync_passes_any)
  qed
qed

lemma update_passes:
  assumes d: "distinct (map fst D)" and ex: "id' \<in> id_col ` set (contentslots s)"
  shows "passes False s
     (updateContentSlot id' componentType viewId columnStart rowStart columnEnd rowEnd (Some D) s)"
  unfolding updateContentSlot_def Let_def
proof (rule scoped_passes)
  fix conn s1
  assume g: "getConnection s = (Inr conn, s1)"
  note G = getConnection_ok[OF g]
  show "passes False s1
     (case query conn (UpdateSlot viewId componentType columnStart rowStart columnEnd rowEnd id') s1 of
         (Inl e, s2) \<Rightarrow> (Inl e, s2)
       | (Inr result, s2) \<Rightarrow>
           (case setOptionsForContentSlot conn id' (Some D) s2 of
              (Inl e, s3) \<Rightarrow> (Inl e, s3)
            | (Inr optionsChanged, s3) \<Rightarrow>
                (Inr (if affectedRows result = 1 \<or> optionsChanged then Some id' else None), s3)))"
  proof (rule passes_then)
    show "passes False s1
       (query conn (UpdateSlot viewId componentType columnStart rowStart columnEnd rowEnd id') s1)"
      by (rule query_passes) simp
  next
    fix result s2
    assume q: "query conn (UpdateSlot viewId componentType columnStart rowStart columnEnd rowEnd id') s1
                 = (Inr result, s2)"
    note Q = query_UpdateSlot_ok[OF q]
    from Q G have "map id_col (contentslots s2) = map id_col (contentslots s)"
      by (simp only: ids_after_update)
    then have "id_col ` set (contentslots s2) = id_col ` set (contentslots s)" by (metis set_map)
    with ex have ex2: "id' \<in> id_col ` set (contentslots s2)" by simp
    show "passes False s2 (case setOptionsForContentSlot conn id' (Some D) s2 of
              (Inl e, s3) \<Rightarrow> (Inl e, s3)
            | (Inr optionsChanged, s3) \<Rightarrow>
                (Inr (if affectedRows result = 1 \<or> optionsChanged then Some id' else None), s3))"
    proof (rule update_body_passes)
      show "passes False s2 (setOptionsForContentSlot conn id' (Some D) s2)"
        by (rule sync_passes) (rule d, rule ex2)
    qed
  qed
qed

lemma create_try_passes:
  assumes d: "distinct (map fst D)"
  shows "passes False s
     (snd (createContentSlot_try componentType viewId columnStart rowStart columnEnd rowEnd (Some D) s))"
  unfolding createContentSlot_try_def Let_def
proof (rule try_passes)
  fix conn s1
  show "passes False s1
     (case query conn (InsertSlot viewId componentType columnStart rowStart columnEnd rowEnd) s1 of
         (Inl e, s2) \<Rightarrow> (Inl e, s2)
       | (Inr insertResult, s2) \<Rightarrow>
           (case setOptionsForContentSlot conn (insertId insertResult) (Some D) s2 of
              (Inl e, s3) \<Rightarrow> (Inl e, s3)
            | (Inr changed, s3) \<Rightarrow> (Inr (insertId insertResult), s3)))"
  proof (rule passes_then)
    show "passes False s1
       (query conn (InsertSlot viewId componentType columnStart rowStart columnEnd rowEnd) s1)"
      by (rule query_passes) simp
  next
    fix insertResult s2
    assume q: "query conn (InsertSlot viewId componentType columnStart rowStart columnEnd rowEnd) s1
                 = (Inr insertResult, s2)"
    note Q = query_InsertSlot_ok[OF q]
    from Q have ex2: "insertId insertResult \<in> id_col ` set (contentslots s2)"
      by (simp add: slot_of_def)
    show "passes False s2 (case setOptionsForContentSlot conn (insertId insertResult) (Some D) s2 of
              (Inl e, s3) \<Rightarrow> (Inl e, s3)
            | (Inr changed, s3) \<Rightarrow> (Inr (insertId insertResult), s3))"
    proof (rule passes_then)
      show "passes False s2 (setOptionsForContentSlot conn (insertId insertResult) (Some D) s2)"
        by (rule sync_passes) (rule d, rule ex2)
    qed (rule passes_value)
  qed
qed

lemma create_fst_snd:
  "createContentSlot_try componentType viewId columnStart rowStart columnEnd rowEnd options s
     = (c, r, s1) \<Longrightarrow>
   fst (createContentSlot componentType viewId columnStart rowStart columnEnd rowEnd options s)
     = (case r of
          Inl e \<Rightarrow> Inl (if errno e = Some 1062 then DuplicateEntryError (code e) else Error (code e))
        | Inr x \<Rightarrow> Inr x) \<and>
   faults (snd (createContentSlot componentType viewId columnStart rowStart columnEnd rowEnd options s))
     = faults s1"
  by (cases c; cases r) (simp_all add: createContentSlot_def catch_clause_def finally_release_def release_def)

lemma used_same: "faults s1 = faults s2 \<Longrightarrow> used s s1 = used s s2"
  by (simp add: used_def)

lemma operation_exact:
  assumes "passes False s out"
  shows "case first_fault (used s (snd out)) of
           None \<Rightarrow> (\<exists>r. fst out = Inr r)
         | Some (n, c) \<Rightarrow> fst out = Inl (SqlError n c)"
proof -
  from assms have "passes False s (fst out, snd out)" by simp
  then show ?thesis by (rule passes_exact)
qed

lemma operation_loose:
  assumes "passes True s out"
  shows "case first_fault (used s (snd out)) of
           None \<Rightarrow> (\<exists>r. fst out = Inr r) \<or> (\<exists>e. fst out = Inl e \<and> refusal e)
         | Some (n, c) \<Rightarrow> fst out = Inl (SqlError n c)"
proof -
  from assms have "passes True s (fst out, snd out)" by simp
  then show ?thesis by (rule passes_loose)
qed

lemma create_exact:
  assumes d: "distinct (map fst D)"
  shows "case first_fault (used s (snd (createContentSlot componentType viewId columnStart rowStart
                columnEnd rowEnd (Some D) s))) of
           None \<Rightarrow> (\<exists>newId. fst (createContentSlot componentType viewId columnStart rowStart
                columnEnd rowEnd (Some D) s) = Inr newId)
         | Some (n, c) \<Rightarrow>
             fst (createContentSlot componentType viewId columnStart rowStart columnEnd rowEnd (Some D) s)
               = Inl (if n = 1062 then DuplicateEntryError (Some c) else Error (Some c))"
proof -
  let ?out = "createContentSlot componentType viewId columnStart rowStart columnEnd rowEnd (Some D) s"
  obtain c r s1 where t: "createContentSlot_try componentType viewId columnStart rowStart
      columnEnd rowEnd (Some D) s = (c, r, s1)"
    by (cases "createContentSlot_try componentType viewId columnStart rowStart
      columnEnd rowEnd (Some D) s") auto
  from create_try_passes[OF d, of s componentType viewId columnStart rowStart columnEnd rowEnd] t
  have "passes False s (r, s1)" by simp
  from passes_exact[OF this] have e: "case first_fault (used s s1) of
           None \<Rightarrow> (\<exists>x. r = Inr x)
         | Some (n, c) \<Rightarrow> r = Inl (SqlError n c)" .
  note C = create_fst_snd[OF t]
  from C have u: "used s (snd ?out) = used s s1" by (intro used_same) simp
  show ?thesis
  proof (cases "first_fault (used s s1)")
    case None
    with e obtain x where "r = Inr x" by auto
    with C have "fst ?out = Inr x" by simp
    with None u show ?thesis by simp
  next
    case (Some f)
    obtain n c' where f: "f = (n, c')" by (cases f)
    with Some e have "r = Inl (SqlError n c')" by simp
    with C have "fst ?out = Inl (if n = 1062 then DuplicateEntryError (Some c') else Error (Some c'))"
      by simp
    with Some f u show ?thesis by simp
  qed
qed

section \<open>Failures reaching the caller\<close>

text \<open>
  C7, as the code has it. \<^verbatim>\<open>createContentSlot\<close> is the one operation with a catch
  clause: whatever it fails with is a \<^verbatim>\<open>DuplicateEntryError\<close> or an \<^verbatim>\<open>Error\<close> carrying
  the diagnostic code. \<^verbatim>\<open>deleteOne\<close>, \<^verbatim>\<open>getContentSlotsByViewId\<close>,
  \<^verbatim>\<open>getContentSlotsByComponentType\<close> and \<^verbatim>\<open>updateContentSlot\<close> have a finally block
  only, and what they throw is an exception of the storage driver. More precisely, in
  terms of the storage calls the operation made (\<open>used\<close>): when none of them failed,
  \<^verbatim>\<open>deleteOne\<close> and the two reads return a value; when one failed, they throw that
  call's exception, with the same \<^verbatim>\<open>errno\<close> and \<^verbatim>\<open>code\<close>. The same holds for
  \<^verbatim>\<open>updateContentSlot\<close> on an existing slot with an options object; for any other call
  of it, a run without a failed call may also end in a refusal of an insert by the tables
  (foreign key or unique key), thrown as it is. For \<^verbatim>\<open>createContentSlot\<close> with an
  options object, no failed call gives the new identifier, and a failed call with
  \<^verbatim>\<open>errno\<close> 1062 gives \<^verbatim>\<open>DuplicateEntryError\<close>, with any other \<^verbatim>\<open>errno\<close> \<^verbatim>\<open>Error\<close>,
  each carrying that call's \<^verbatim>\<open>code\<close>.
\<close>

theorem failures_by_operation:
  "(case fst (createContentSlot componentType viewId columnStart rowStart columnEnd rowEnd options s) of
      Inl e \<Rightarrow> typed_failure e | Inr newId \<Rightarrow> True) \<and>
   (case fst (deleteOne id' s) of Inl e \<Rightarrow> driver_exception e | Inr r \<Rightarrow> True) \<and>
   (case fst (getContentSlotsByViewId viewId s) of Inl e \<Rightarrow> driver_exception e | Inr r \<Rightarrow> True) \<and>
   (case fst (getContentSlotsByComponentType componentType s) of
      Inl e \<Rightarrow> driver_exception e | Inr r \<Rightarrow> True) \<and>
   (case fst (updateContentSlot id' componentType viewId columnStart rowStart columnEnd rowEnd options s) of
      Inl e \<Rightarrow> driver_exception e | Inr r \<Rightarrow> True) \<and>
   (distinct (map fst D) \<longrightarrow>
      (case first_fault (used s (snd (createContentSlot componentType viewId columnStart rowStart
                columnEnd rowEnd (Some D) s))) of
         None \<Rightarrow> (\<exists>newId. fst (createContentSlot componentType viewId columnStart rowStart
                columnEnd rowEnd (Some D) s) = Inr newId)
       | Some (n, c) \<Rightarrow>
           fst (createContentSlot componentType viewId columnStart rowStart columnEnd rowEnd (Some D) s)
             = Inl (if n = 1062 then DuplicateEntryError (Some c) else Error (Some c)))) \<and>
   (case first_fault (used s (snd (deleteOne id' s))) of
      None \<Rightarrow> (\<exists>r. fst (deleteOne id' s) = Inr r)
    | Some (n, c) \<Rightarrow> fst (deleteOne id' s) = Inl (SqlError n c)) \<and>
   (case first_fault (used s (snd (getContentSlotsByViewId viewId s))) of
      None \<Rightarrow> (\<exists>r. fst (getContentSlotsByViewId viewId s) = Inr r)
    | Some (n, c) \<Rightarrow> fst (getContentSlotsByViewId viewId s) = Inl (SqlError n c)) \<and>
   (case first_fault (used s (snd (getContentSlotsByComponentType componentType s))) of
      None \<Rightarrow> (\<exists>r. fst (getContentSlotsByComponentType componentType s) = Inr r)
    | Some (n, c) \<Rightarrow> fst (getContentSlotsByComponentType componentType s) = Inl (SqlError n c)) \<and>
   (case first_fault (used s (snd (updateContentSlot id' componentType viewId columnStart rowStart
                columnEnd rowEnd options s))) of
      None \<Rightarrow>
        (\<exists>r. fst (updateContentSlot id' componentType viewId columnStart rowStart
                columnEnd rowEnd options s) = Inr r) \<or>
        (\<exists>e. fst (updateContentSlot id' componentType viewId columnStart rowStart
                columnEnd rowEnd options s) = Inl e \<and> refusal e)
    | Some (n, c) \<Rightarrow>
        fst (updateContentSlot id' componentType viewId columnStart rowStart columnEnd rowEnd options s)
          = Inl (SqlError n c)) \<and>
   (distinct (map fst D) \<and> id' \<in> id_col ` set (contentslots s) \<longrightarrow>
      (case first_fault (used s (snd (updateContentSlot id' componentType viewId columnStart rowStart
                columnEnd rowEnd (Some D) s))) of
         None \<Rightarrow> (\<exists>r. fst (updateContentSlot id' componentType viewId columnStart rowStart
                columnEnd rowEnd (Some D) s) = Inr r)
       | Some (n, c) \<Rightarrow>
           fst (updateContentSlot id' componentType viewId columnStart rowStart columnEnd rowEnd (Some D) s)
             = Inl (SqlError n c)))"
proof (intro conjI impI)
  show "case fst (createContentSlot componentType viewId columnStart rowStart columnEnd rowEnd options s) of
      Inl e \<Rightarrow> typed_failure e | Inr newId \<Rightarrow> True"
  proof (rule outcome_cases)
    fix e assume f: "fst (createContentSlot componentType viewId columnStart rowStart columnEnd rowEnd options s) = Inl e"
    obtain c r s1 where t: "createContentSlot_try componentType viewId columnStart rowStart columnEnd rowEnd options s = (c, r, s1)"
      by (cases "createContentSlot_try componentType viewId columnStart rowStart columnEnd rowEnd options s") auto
    show "typed_failure e"
    proof (cases r)
      case (Inl x)
      with t have "driver_exception x" by (auto dest: create_try_fail)
      from driver_typed[OF this] f t Inl show ?thesis
        by (cases c) (simp_all add: createContentSlot_def catch_clause_def finally_release_def)
    next
      case (Inr newId)
      with f t show ?thesis
        by (cases c) (simp_all add: createContentSlot_def catch_clause_def finally_release_def)
    qed
  qed
  show "case fst (deleteOne id' s) of Inl e \<Rightarrow> driver_exception e | Inr r \<Rightarrow> True"
  proof (rule outcome_cases)
    fix e assume "fst (deleteOne id' s) = Inl e"
    then have "deleteOne id' s = (Inl e, snd (deleteOne id' s))" by (metis prod.collapse)
    then show "driver_exception e"
      unfolding deleteOne_def
      by (rule scoped_fail) (auto split: prod.splits sum.splits dest: query_driver)
  qed
  show "case fst (getContentSlotsByViewId viewId s) of Inl e \<Rightarrow> driver_exception e | Inr r \<Rightarrow> True"
  proof (rule outcome_cases)
    fix e assume "fst (getContentSlotsByViewId viewId s) = Inl e"
    then have "getContentSlotsByViewId viewId s = (Inl e, snd (getContentSlotsByViewId viewId s))"
      by (metis prod.collapse)
    then show "driver_exception e"
      unfolding getContentSlotsByViewId_def
      by (rule scoped_fail) (rule byViewId_body_fail)
  qed
  show "case fst (getContentSlotsByComponentType componentType s) of
      Inl e \<Rightarrow> driver_exception e | Inr r \<Rightarrow> True"
  proof (rule outcome_cases)
    fix e assume "fst (getContentSlotsByComponentType componentType s) = Inl e"
    then have "getContentSlotsByComponentType componentType s =
        (Inl e, snd (getContentSlotsByComponentType componentType s))"
      by (metis prod.collapse)
    then show "driver_exception e"
      unfolding getContentSlotsByComponentType_def
      by (rule scoped_fail) (auto split: prod.splits sum.splits dest: query_slots_driver)
  qed
  show "case fst (updateContentSlot id' componentType viewId columnStart rowStart columnEnd rowEnd options s) of
      Inl e \<Rightarrow> driver_exception e | Inr r \<Rightarrow> True"
  proof (rule outcome_cases)
    fix e assume "fst (updateContentSlot id' componentType viewId columnStart rowStart columnEnd rowEnd options s) = Inl e"
    then have "updateContentSlot id' componentType viewId columnStart rowStart columnEnd rowEnd options s =
        (Inl e, snd (updateContentSlot id' componentType viewId columnStart rowStart columnEnd rowEnd options s))"
      by (metis prod.collapse)
    then show "driver_exception e"
      unfolding updateContentSlot_def
      by (rule scoped_fail) (rule update_body_fail)
  qed
next
  assume "distinct (map fst D)"
  then show "case first_fault (used s (snd (createContentSlot componentType viewId columnStart rowStart
                columnEnd rowEnd (Some D) s))) of
         None \<Rightarrow> (\<exists>newId. fst (createContentSlot componentType viewId columnStart rowStart
                columnEnd rowEnd (Some D) s) = Inr newId)
       | Some (n, c) \<Rightarrow>
           fst (createContentSlot componentType viewId columnStart rowStart columnEnd rowEnd (Some D) s)
             = Inl (if n = 1062 then DuplicateEntryError (Some c) else Error (Some c))"
    by (rule create_exact)
next
  show "case first_fault (used s (snd (deleteOne id' s))) of
      None \<Rightarrow> (\<exists>r. fst (deleteOne id' s) = Inr r)
    | Some (n, c) \<Rightarrow> fst (deleteOne id' s) = Inl (SqlError n c)"
    by (rule operation_exact) (rule deleteOne_passes)
  show "case first_fault (used s (snd (getContentSlotsByViewId viewId s))) of
      None \<Rightarrow> (\<exists>r. fst (getContentSlotsByViewId viewId s) = Inr r)
    | Some (n, c) \<Rightarrow> fst (getContentSlotsByViewId viewId s) = Inl (SqlError n c)"
    by (rule operation_exact) (rule byViewId_passes)
  show "case first_fault (used s (snd (getContentSlotsByComponentType componentType s))) of
      None \<Rightarrow> (\<exists>r. fst (getContentSlotsByComponentType componentType s) = Inr r)
    | Some (n, c) \<Rightarrow> fst (getContentSlotsByComponentType componentType s) = Inl (SqlError n c)"
    by (rule operation_exact) (rule byComponentType_passes)
  show "case first_fault (used s (snd (updateContentSlot id' componentType viewId columnStart rowStart
                columnEnd rowEnd options s))) of
      None \<Rightarrow>
        (\<exists>r. fst (updateContentSlot id' componentType viewId columnStart rowStart
                columnEnd rowEnd options s) = Inr r) \<or>
        (\<exists>e. fst (updateContentSlot id' componentType viewId columnStart rowStart
                columnEnd rowEnd options s) = Inl e \<and> refusal e)
    | Some (n, c) \<Rightarrow>
        fst (updateContentSlot id' componentType viewId columnStart rowStart columnEnd rowEnd options s)
          = Inl (SqlError n c)"
    by (rule operation_loose) (rule update_passes_any)
next
  assume "distinct (map fst D) \<and> id' \<in> id_col ` set (contentslots s)"
  then have "passes False s
     (updateContentSlot id' componentType viewId columnStart rowStart columnEnd rowEnd (Some D) s)"
    by (intro update_passes) simp_all
  then show "case first_fault (used s (snd (updateContentSlot id' componentType viewId columnStart rowStart
                columnEnd rowEnd (Some D) s))) of
         None \<Rightarrow> (\<exists>r. fst (updateContentSlot id' componentType viewId columnStart rowStart
                columnEnd rowEnd (Some D) s) = Inr r)
       | Some (n, c) \<Rightarrow>
           fst (updateContentSlot id' componentType viewId columnStart rowStart columnEnd rowEnd (Some D) s)
             = Inl (SqlError n c)"
    by (rule operation_exact)
qed

lemmas fault_defs = used_def failing_store_def duplicate_store_def

theorem failures_by_operation_witness:
  "first_fault (used failing_store (snd (deleteOne 1 failing_store)))
     = Some (1205, ''ER_LOCK_WAIT_TIMEOUT'') \<and>
   fst (deleteOne 1 failing_store) = Inl (SqlError 1205 ''ER_LOCK_WAIT_TIMEOUT'') \<and>
   first_fault (used demo_store (snd (deleteOne 9 demo_store))) = None \<and>
   fst (deleteOne 9 demo_store) = Inr None \<and>
   distinct (map fst [(''color'', ''red'')]) \<and>
   first_fault (used duplicate_store
      (snd (createContentSlot ''Banner'' 1 1 1 3 2 (Some [(''color'', ''red'')]) duplicate_store)))
     = Some (1062, ''ER_DUP_ENTRY'') \<and>
   fst (createContentSlot ''Banner'' 1 1 1 3 2 (Some [(''color'', ''red'')]) duplicate_store)
     = Inl (DuplicateEntryError (Some ''ER_DUP_ENTRY'')) \<and>
   1 \<in> id_col ` set (contentslots failing_store) \<and>
   first_fault (used failing_store
      (snd (updateContentSlot 1 ''Banner'' 1 1 1 3 2 (Some [(''color'', ''red'')]) failing_store)))
     = Some (1205, ''ER_LOCK_WAIT_TIMEOUT'') \<and>
   fst (updateContentSlot 1 ''Banner'' 1 1 1 3 2 (Some [(''color'', ''red'')]) failing_store)
     = Inl (SqlError 1205 ''ER_LOCK_WAIT_TIMEOUT'')"
proof -
  let ?D = "[(''color'', ''red'')]"
  note T = failures_by_operation[where componentType="''Banner''" and viewId=1 and columnStart=1
      and rowStart=1 and columnEnd=3 and rowEnd=2 and D="?D" and options="Some ?D"]
  have d: "distinct (map fst ?D)" by simp
  have u1: "first_fault (used failing_store (snd (deleteOne 1 failing_store)))
     = Some (1205, ''ER_LOCK_WAIT_TIMEOUT'')"
    by (simp add: fault_defs run_defs op_defs)
  with T[where id'=1 and s=failing_store]
  have r1: "fst (deleteOne 1 failing_store) = Inl (SqlError 1205 ''ER_LOCK_WAIT_TIMEOUT'')" by simp
  have u2: "first_fault (used demo_store (snd (deleteOne 9 demo_store))) = None"
    by (simp add: fault_defs run_defs op_defs)
  have r2: "fst (deleteOne 9 demo_store) = Inr None" by (simp add: run_defs op_defs)
  have u3: "first_fault (used duplicate_store
      (snd (createContentSlot ''Banner'' 1 1 1 3 2 (Some ?D) duplicate_store)))
     = Some (1062, ''ER_DUP_ENTRY'')"
    by (simp add: fault_defs run_defs op_defs)
  with T[where id'=1 and s=duplicate_store] d
  have r3: "fst (createContentSlot ''Banner'' 1 1 1 3 2 (Some ?D) duplicate_store)
     = Inl (DuplicateEntryError (Some ''ER_DUP_ENTRY''))" by simp
  have ex: "1 \<in> id_col ` set (contentslots failing_store)"
    by (simp add: fault_defs run_defs)
  have u4: "first_fault (used failing_store
      (snd (updateContentSlot 1 ''Banner'' 1 1 1 3 2 (Some ?D) failing_store)))
     = Some (1205, ''ER_LOCK_WAIT_TIMEOUT'')"
    by (simp add: fault_defs run_defs op_defs)
  with T[where id'=1 and s=failing_store] d ex
  have r4: "fst (updateContentSlot 1 ''Banner'' 1 1 1 3 2 (Some ?D) failing_store)
     = Inl (SqlError 1205 ''ER_LOCK_WAIT_TIMEOUT'')" by simp
  from u1 r1 u2 r2 d u3 r3 ex u4 r4 show ?thesis by simp
qed

text \<open>The claim as the specification states it, that no operation lets a raw
  storage-engine exception escape, fails for \<^verbatim>\<open>deleteOne\<close> on a store whose first
  statement times out.\<close>

theorem raw_exception_escapes:
  "fst (deleteOne 1 failing_store) = Inl (SqlError 1205 ''ER_LOCK_WAIT_TIMEOUT'') \<and>
   \<not> (case fst (deleteOne 1 failing_store) of Inl e \<Rightarrow> typed_failure e | Inr r \<Rightarrow> True)"
  by (simp add: failing_store_def run_defs op_defs)

end
